theory Spec2Isabelle
  imports Main
begin

section \<open>Values exchanged with the remote endpoint\<close>

text \<open>
  Addresses, error messages and raw return data are JavaScript strings. A thrown
  \<open>Error\<close> is the left injection of a sum carrying its message; a resolved promise is the
  right injection.
\<close>

type_synonym address = string
type_synonym bytes = string

definition ZeroAddress :: address where
  "ZeroAddress = ''0x0000000000000000000000000000000000000000''"

text \<open>JavaScript truthiness of a string: only the empty string is falsy.\<close>

definition truthy :: "string \<Rightarrow> bool" where
  "truthy s = (s \<noteq> [])"

text \<open>\<open>String.prototype.includes\<close>: the pattern occurs somewhere in the text.\<close>

fun startsWith :: "string \<Rightarrow> string \<Rightarrow> bool" where
  "startsWith s [] = True"
| "startsWith [] (p # ps) = False"
| "startsWith (c # s) (p # ps) = (c = p \<and> startsWith s ps)"

fun includes_str :: "string \<Rightarrow> string \<Rightarrow> bool" where
  "includes_str [] p = (p = [])"
| "includes_str (c # s) p = (startsWith (c # s) p \<or> includes_str s p)"

text \<open>
  The function selector and arguments that \<open>encodeFunctionData\<close> packs into call data,
  kept symbolic.
\<close>

datatype calldata = Underlying | Decimals | Symbol | Positions address address

record contractCall =
  target :: address
  allowFailure :: bool
  callData :: calldata

text \<open>
  The remote endpoint as the client sees it. Every request the client issues is
  numbered; the answer to request number \<open>n\<close> may depend on \<open>n\<close>, on the block tag and on
  what is asked, so a responder can fail at one attempt and succeed at the next.

  \<^item> \<open>probe\<close>: the liveness probe of \<open>getProvider\<close> (\<open>Some msg\<close>: it throws);
  \<^item> \<open>allLPTokens_at\<close>: \<open>creditVault.allLPTokens(index, {blockTag})\<close>;
  \<^item> \<open>aggregate3_throws\<close>, \<open>aggregate3_result\<close>: \<open>aggregate3.staticCall\<close>; when it does
    not throw, the aggregator answers every submitted call, so the \<open>k\<close>-th answer exists
    for each \<open>k\<close> below the number of calls;
  \<^item> \<open>underlying_at\<close>, \<open>decimals_at\<close>, \<open>symbol_at\<close>, \<open>positions_at\<close>: the typed single
    reads used when a batch is abandoned.
\<close>

record remote =
  probe :: "string option"
  allLPTokens_at :: "nat \<Rightarrow> nat option \<Rightarrow> nat \<Rightarrow> string + address"
  aggregate3_throws :: "nat \<Rightarrow> nat option \<Rightarrow> contractCall list \<Rightarrow> string option"
  aggregate3_result :: "nat \<Rightarrow> nat option \<Rightarrow> contractCall list \<Rightarrow> nat \<Rightarrow> bool \<times> bytes"
  underlying_at :: "nat \<Rightarrow> nat option \<Rightarrow> address \<Rightarrow> string + address"
  decimals_at :: "nat \<Rightarrow> nat option \<Rightarrow> address \<Rightarrow> string + nat"
  symbol_at :: "nat \<Rightarrow> nat option \<Rightarrow> address \<Rightarrow> string + string"
  positions_at :: "nat \<Rightarrow> nat option \<Rightarrow> address \<Rightarrow> address \<Rightarrow> string + int"

section \<open>Enumerating the registry\<close>

text \<open>
  \<open>getCreditVaultContract\<close> obtains the provider; a provider that is not memoized yet is
  probed first, and a failing probe is rethrown. \<open>probe = None\<close> also stands for a
  provider that is already memoized. Once the scan has started the provider stays
  memoized, so the later stages obtain the contract and the Multicall3 wrapper without a
  further probe. The model takes the CreditVault and Multicall3 addresses from the
  defaults of the chain table (an environment variable can replace a default); none of
  them is the zero address or empty, so the two configuration checks of the getters
  never throw.
\<close>

definition getProvider :: "remote \<Rightarrow> string + unit" where
  "getProvider r = (case probe r of Some msg \<Rightarrow> Inl msg | None \<Rightarrow> Inr ())"

text \<open>
  The \<open>while (true)\<close> loop of \<open>getAllLPTokens\<close> (library and browser variants are the same
  loop). Both arms of the \<open>catch\<close> leave the loop with \<open>break\<close>.
\<close>

function scanLoop :: "remote \<Rightarrow> nat option \<Rightarrow> nat \<Rightarrow> address list \<Rightarrow> nat \<Rightarrow> address list \<times> nat" where
  "scanLoop r blockNumber index lpTokens n =
     (case allLPTokens_at r n blockNumber index of
        Inr lpTokenAddress \<Rightarrow>
          if truthy lpTokenAddress \<and> lpTokenAddress \<noteq> ZeroAddress then
            (if index + 1 > 1000 then (lpTokens @ [lpTokenAddress], Suc n)
             else scanLoop r blockNumber (index + 1) (lpTokens @ [lpTokenAddress]) (Suc n))
          else (lpTokens, Suc n)
      | Inl message \<Rightarrow>
          if includes_str message ''revert'' \<or> includes_str message ''execution reverted''
          then (lpTokens, Suc n)
          else (lpTokens, Suc n))"
  by pat_completeness auto
termination
  by (relation "measure (\<lambda>(r, blockNumber, index, lpTokens, n). 1001 - index)") auto

definition getAllLPTokens :: "remote \<Rightarrow> nat option \<Rightarrow> nat \<Rightarrow> (string + address list) \<times> nat" where
  "getAllLPTokens r blockNumber n =
     (case getProvider r of
        Inl msg \<Rightarrow> (Inl msg, n)
      | Inr _ \<Rightarrow> (case scanLoop r blockNumber 0 [] n of (lpTokens, n') \<Rightarrow> (Inr lpTokens, n')))"

text \<open>
  The same loop in the HTTP handler: an error that is not a revert is thrown again and
  ends the request with status 500.
\<close>

function handlerScan :: "remote \<Rightarrow> nat option \<Rightarrow> nat \<Rightarrow> address list \<Rightarrow> nat \<Rightarrow> (string + address list) \<times> nat" where
  "handlerScan r targetBlock index lpTokens n =
     (case allLPTokens_at r n targetBlock index of
        Inr lpTokenAddress \<Rightarrow>
          if truthy lpTokenAddress \<and> lpTokenAddress \<noteq> ZeroAddress then
            (if index + 1 > 1000 then (Inr (lpTokens @ [lpTokenAddress]), Suc n)
             else handlerScan r targetBlock (index + 1) (lpTokens @ [lpTokenAddress]) (Suc n))
          else (Inr lpTokens, Suc n)
      | Inl message \<Rightarrow>
          if includes_str message ''revert'' \<or> includes_str message ''execution reverted''
          then (Inr lpTokens, Suc n)
          else (Inl message, Suc n))"
  by pat_completeness auto
termination
  by (relation "measure (\<lambda>(r, targetBlock, index, lpTokens, n). 1001 - index)") auto

section \<open>The Multicall3 wrapper\<close>

record callResult =
  success :: bool
  data :: bytes
  call :: contractCall

text \<open>
  \<open>aggregate3\<close> pins the request to a block only when \<open>blockNumber\<close> is truthy
  (\<open>blockNumber ? { blockTag: blockNumber } : {}\<close>), so both \<open>null\<close> and \<open>0\<close> read the latest
  state. An exception of the static call is logged and thrown again.
\<close>

definition blockOptions :: "nat option \<Rightarrow> nat option" where
  "blockOptions blockNumber =
     (case blockNumber of None \<Rightarrow> None | Some b \<Rightarrow> if b = 0 then None else Some b)"

definition aggregate3 :: "remote \<Rightarrow> contractCall list \<Rightarrow> nat option \<Rightarrow> nat \<Rightarrow> (string + (bool \<times> bytes) list) \<times> nat" where
  "aggregate3 r calls blockNumber n =
     (case aggregate3_throws r n (blockOptions blockNumber) calls of
        Some message \<Rightarrow> (Inl message, Suc n)
      | None \<Rightarrow>
          (Inr (map (aggregate3_result r n (blockOptions blockNumber) calls) [0..<length calls]), Suc n))"

text \<open>\<open>batchCall\<close> pairs every answer with the call at the same index.\<close>

definition batchCall :: "remote \<Rightarrow> contractCall list \<Rightarrow> nat option \<Rightarrow> nat \<Rightarrow> (string + callResult list) \<times> nat" where
  "batchCall r contractCalls blockNumber n =
     (case aggregate3 r contractCalls blockNumber n of
        (Inl message, n') \<Rightarrow> (Inl message, n')
      | (Inr results, n') \<Rightarrow>
          (Inr (map (\<lambda>index. \<lparr>success = fst (results ! index), data = snd (results ! index),
                               call = contractCalls ! index\<rparr>) [0..<length results]), n'))"

text \<open>
  One pass of the retry loop. \<open>failedCalls\<close> lists, in ascending order, the indices whose
  result is not successful; their calls are submitted again and every answer is written
  back at the index it was taken from (\<open>results[index] = retryResults[retryIndex]\<close>).
\<close>

definition failedCalls :: "callResult list \<Rightarrow> contractCall list \<Rightarrow> (callResult \<times> nat \<times> contractCall) list" where
  "failedCalls results contractCalls =
     filter (\<lambda>(result, index, c). \<not> success result)
       (map (\<lambda>index. (results ! index, index, contractCalls ! index)) [0..<length results])"

fun writeBack :: "(callResult \<times> nat \<times> contractCall) list \<Rightarrow> callResult list \<Rightarrow> nat \<Rightarrow> callResult list \<Rightarrow> callResult list" where
  "writeBack [] retryResults retryIndex results = results"
| "writeBack ((result, index, c) # rest) retryResults retryIndex results =
     writeBack rest retryResults (retryIndex + 1) (results[index := retryResults ! retryIndex])"

function retryLoop :: "remote \<Rightarrow> contractCall list \<Rightarrow> nat \<Rightarrow> nat option \<Rightarrow> nat \<Rightarrow> callResult list \<Rightarrow> nat \<Rightarrow> (string + callResult list) \<times> nat" where
  "retryLoop r contractCalls maxRetries blockNumber retryCount results n =
     (if retryCount < maxRetries then
        (if failedCalls results contractCalls = [] then (Inr results, n)
         else
           (case batchCall r (map (\<lambda>(result, index, c). c) (failedCalls results contractCalls)) blockNumber n of
              (Inl message, n') \<Rightarrow> (Inl message, n')
            | (Inr retryResults, n') \<Rightarrow>
                retryLoop r contractCalls maxRetries blockNumber (retryCount + 1)
                  (writeBack (failedCalls results contractCalls) retryResults 0 results) n'))
      else (Inr results, n))"
  by pat_completeness auto
termination
  by (relation "measure (\<lambda>(r, contractCalls, maxRetries, blockNumber, retryCount, results, n). maxRetries - retryCount)") auto

definition batchCallWithRetry :: "remote \<Rightarrow> contractCall list \<Rightarrow> nat \<Rightarrow> nat option \<Rightarrow> nat \<Rightarrow> (string + callResult list) \<times> nat" where
  "batchCallWithRetry r contractCalls maxRetries blockNumber n =
     (case batchCall r contractCalls blockNumber n of
        (Inl message, n') \<Rightarrow> (Inl message, n')
      | (Inr results, n') \<Rightarrow> retryLoop r contractCalls maxRetries blockNumber 0 results n')"

definition createContractCall :: "address \<Rightarrow> calldata \<Rightarrow> contractCall" where
  "createContractCall tgt method = \<lparr>target = tgt, allowFailure = True, callData = method\<rparr>"

section \<open>Library routines the fetcher calls\<close>

text \<open>
  The routines of the \<open>ethers\<close> package that the fetcher calls are parameters of the
  model: address validation, the ABI decoders (the left injection is the message of the
  exception they throw) and the fixed-point formatter.
\<close>

record ethers =
  isAddress :: "string \<Rightarrow> bool"
  decodeAddress :: "bytes \<Rightarrow> string + address"
  decodeUint8 :: "bytes \<Rightarrow> string + nat"
  decodeString :: "bytes \<Rightarrow> string + string"
  decodeInt256 :: "bytes \<Rightarrow> string + int"
  formatUnits :: "int \<Rightarrow> nat \<Rightarrow> string + string"

text \<open>An array read that may be out of range: \<open>None\<close> is JavaScript's \<open>undefined\<close>.\<close>

definition nth_opt :: "'a list \<Rightarrow> nat \<Rightarrow> 'a option" where
  "nth_opt xs i = (if i < length xs then Some (xs ! i) else None)"

section \<open>Stage 2: underlying token, decimals and symbol of every LP token\<close>

record tokenData =
  lpTokenAddress :: address
  underlyingAddress :: address
  decimals :: nat
  symbol :: string
  isLPToken :: bool

definition fallbackToken :: "address \<Rightarrow> tokenData" where
  "fallbackToken lp =
     \<lparr>lpTokenAddress = lp, underlyingAddress = lp, decimals = 18, symbol = ''LP'', isLPToken = False\<rparr>"

text \<open>The inner \<open>try\<close> of the triplet loop: three decodes, any of which may throw.\<close>

definition decodeTriplet :: "ethers \<Rightarrow> address \<Rightarrow> callResult \<Rightarrow> callResult \<Rightarrow> callResult \<Rightarrow> tokenData" where
  "decodeTriplet E lp underlyingResult decimalsResult symbolResult =
     (case decodeAddress E (data underlyingResult) of
        Inl decodeError \<Rightarrow> fallbackToken lp
      | Inr underlyingAddr \<Rightarrow>
          (case decodeUint8 E (data decimalsResult) of
             Inl decodeError \<Rightarrow> fallbackToken lp
           | Inr decs \<Rightarrow>
               (case decodeString E (data symbolResult) of
                  Inl decodeError \<Rightarrow> fallbackToken lp
                | Inr symbolText \<Rightarrow>
                    if truthy underlyingAddr \<and> underlyingAddr \<noteq> ZeroAddress then
                      \<lparr>lpTokenAddress = lp, underlyingAddress = underlyingAddr, decimals = decs,
                       symbol = symbolText, isLPToken = True\<rparr>
                    else fallbackToken lp)))"

text \<open>
  \<open>underlyingResult.success && decimalsResult.success && symbolResult.success\<close>, evaluated
  left to right; reading \<open>success\<close> of \<open>undefined\<close> throws a \<open>TypeError\<close>, here \<open>None\<close>.
\<close>

definition resolveTriplet :: "ethers \<Rightarrow> address \<Rightarrow> callResult option \<Rightarrow> callResult option \<Rightarrow> callResult option \<Rightarrow> tokenData option" where
  "resolveTriplet E lp underlyingResult decimalsResult symbolResult =
     (case underlyingResult of
        None \<Rightarrow> None
      | Some u \<Rightarrow>
          if \<not> success u then Some (fallbackToken lp)
          else
            (case decimalsResult of
               None \<Rightarrow> None
             | Some d \<Rightarrow>
                 if \<not> success d then Some (fallbackToken lp)
                 else
                   (case symbolResult of
                      None \<Rightarrow> None
                    | Some s \<Rightarrow>
                        if \<not> success s then Some (fallbackToken lp)
                        else Some (decodeTriplet E lp u d s))))"

text \<open>
  The loop \<open>for (j = 0; j < batch.length; j++)\<close> over the triplets. It returns the entries
  pushed so far and whether a \<open>TypeError\<close> ended it; the entries pushed before the
  exception stay in \<open>tokenData\<close>.
\<close>

fun tripletLoop :: "ethers \<Rightarrow> address list \<Rightarrow> callResult list \<Rightarrow> nat \<Rightarrow> tokenData list \<times> bool" where
  "tripletLoop E [] results j = ([], False)"
| "tripletLoop E (lp # rest) results j =
     (case resolveTriplet E lp (nth_opt results (j * 3)) (nth_opt results (j * 3 + 1))
             (nth_opt results (j * 3 + 2)) of
        None \<Rightarrow> ([], True)
      | Some entry \<Rightarrow>
          (case tripletLoop E rest results (j + 1) of (entries, thrown) \<Rightarrow> (entry # entries, thrown)))"

text \<open>
  \<open>getUnderlyingToken\<close>: three reads started together by \<open>Promise.all\<close>; if any of them
  rejects the function logs a warning and returns \<open>null\<close>.
\<close>

definition getUnderlyingToken :: "remote \<Rightarrow> address \<Rightarrow> nat option \<Rightarrow> nat \<Rightarrow> (address \<times> nat \<times> string) option \<times> nat" where
  "getUnderlyingToken r lp blockNumber n =
     (case underlying_at r n blockNumber lp of
        Inl message \<Rightarrow> (None, n + 3)
      | Inr a \<Rightarrow>
          (case decimals_at r (n + 1) blockNumber lp of
             Inl message \<Rightarrow> (None, n + 3)
           | Inr d \<Rightarrow>
               (case symbol_at r (n + 2) blockNumber lp of
                  Inl message \<Rightarrow> (None, n + 3)
                | Inr s \<Rightarrow> (Some (a, d, s), n + 3))))"

text \<open>The \<open>catch\<close> of a chunk: one \<open>getUnderlyingToken\<close> per LP token of the batch.\<close>

fun underlyingFallback :: "remote \<Rightarrow> nat option \<Rightarrow> address list \<Rightarrow> nat \<Rightarrow> tokenData list \<times> nat" where
  "underlyingFallback r blockNumber [] n = ([], n)"
| "underlyingFallback r blockNumber (lp # rest) n =
     (case getUnderlyingToken r lp blockNumber n of
        (underlyingData, n') \<Rightarrow>
          (case underlyingFallback r blockNumber rest n' of
             (entries, n'') \<Rightarrow>
               ((case underlyingData of
                   Some (a, d, s) \<Rightarrow>
                     if a \<noteq> ZeroAddress then
                       \<lparr>lpTokenAddress = lp, underlyingAddress = a, decimals = d, symbol = s,
                        isLPToken = True\<rparr>
                     else fallbackToken lp
                 | None \<Rightarrow> fallbackToken lp) # entries, n'')))"

definition tripletCalls :: "address list \<Rightarrow> contractCall list" where
  "tripletCalls batch =
     concat (map (\<lambda>lp. [createContractCall lp Underlying, createContractCall lp Decimals,
                         createContractCall lp Symbol]) batch)"

text \<open>One chunk of stage 2: the \<open>try\<close> with its \<open>catch\<close>.\<close>

definition underlyingChunk :: "ethers \<Rightarrow> remote \<Rightarrow> nat option \<Rightarrow> address list \<Rightarrow> nat \<Rightarrow> tokenData list \<times> nat" where
  "underlyingChunk E r blockNumber batch n =
     (case batchCallWithRetry r (tripletCalls batch) 1 blockNumber n of
        (Inl message, n') \<Rightarrow> underlyingFallback r blockNumber batch n'
      | (Inr results, n') \<Rightarrow>
          (case tripletLoop E batch results 0 of
             (entries, False) \<Rightarrow> (entries, n')
           | (entries, True) \<Rightarrow>
               (case underlyingFallback r blockNumber batch n' of
                  (again, n'') \<Rightarrow> (entries @ again, n''))))"

function underlyingChunks :: "ethers \<Rightarrow> remote \<Rightarrow> nat option \<Rightarrow> address list \<Rightarrow> nat \<Rightarrow> tokenData list \<Rightarrow> nat \<Rightarrow> tokenData list \<times> nat" where
  "underlyingChunks E r blockNumber lpTokenAddresses i tokenData n =
     (if i < length lpTokenAddresses then
        (case underlyingChunk E r blockNumber (take 10 (drop i lpTokenAddresses)) n of
           (entries, n') \<Rightarrow>
             underlyingChunks E r blockNumber lpTokenAddresses (i + 10) (tokenData @ entries) n')
      else (tokenData, n))"
  by pat_completeness auto
termination
  by (relation "measure (\<lambda>(E, r, blockNumber, lpTokenAddresses, i, tokenData, n). length lpTokenAddresses - i)") auto

definition batchGetUnderlyingTokens :: "ethers \<Rightarrow> remote \<Rightarrow> address list \<Rightarrow> nat option \<Rightarrow> nat \<Rightarrow> tokenData list \<times> nat" where
  "batchGetUnderlyingTokens E r lpTokenAddresses blockNumber n =
     underlyingChunks E r blockNumber lpTokenAddresses 0 [] n"

section \<open>BigInt and its decimal text\<close>

text \<open>
  \<open>BigInt.prototype.toString()\<close>: the decimal digits, most significant first, with a
  leading minus sign for a negative value.
\<close>

definition digitChar :: "nat \<Rightarrow> char" where
  "digitChar d = char_of (48 + d)"

function natToString :: "nat \<Rightarrow> string" where
  "natToString n = (if n < 10 then [digitChar n] else natToString (n div 10) @ [digitChar (n mod 10)])"
  by pat_completeness auto
termination
  by (relation "measure (\<lambda>n. n)") auto

definition bigint_toString :: "int \<Rightarrow> string" where
  "bigint_toString v = (if v < 0 then CHR ''-'' # natToString (nat (- v)) else natToString (nat v))"

text \<open>
  \<open>BigInt(text)\<close> for a decimal literal: an optional minus sign and decimal digits; the
  empty string is \<open>0n\<close>. Any other text is answered with \<open>None\<close>, the \<open>SyntaxError\<close>;
  the only texts the fetcher passes are results of \<open>toString()\<close> and the literal \<open>'0'\<close>.
\<close>

definition digitVal :: "char \<Rightarrow> nat option" where
  "digitVal c = (if 48 \<le> (of_char c :: nat) \<and> (of_char c :: nat) \<le> 57 then Some (of_char c - 48) else None)"

fun parseDigits :: "string \<Rightarrow> nat \<Rightarrow> nat option" where
  "parseDigits [] acc = Some acc"
| "parseDigits (c # cs) acc =
     (case digitVal c of None \<Rightarrow> None | Some d \<Rightarrow> parseDigits cs (acc * 10 + d))"

definition BigInt :: "string \<Rightarrow> int option" where
  "BigInt s =
     (case s of
        [] \<Rightarrow> Some 0
      | c # cs \<Rightarrow>
          if c = CHR ''-'' then
            (if cs = [] then None else map_option (\<lambda>k. - int k) (parseDigits cs 0))
          else map_option int (parseDigits s 0))"

section \<open>The fixed-point formatter of the library\<close>

text \<open>
  \<open>ethers.formatUnits(value, decimals)\<close>, the routine the join calls for
  \<open>positionFormatted\<close>, is a function of the ethers package (version 6, the API the
  sources use), not of this repository. It is
  \<open>FixedNumber.fromValue(value, decimals, {decimals, width: 512}).toString()\<close>: the format
  is rejected when \<open>decimals\<close> exceeds 80, the value when it does not fit 512 signed bits,
  and the text is produced by the routine below. The repository's README shows its
  behaviour: position \<open>"1000000000000000000"\<close> is formatted as \<open>"1.0"\<close>.

  The text of \<open>val\<close> with \<open>decimals\<close> fractional digits: the decimal digits of the
  magnitude are padded on the left with blocks of four zeros until there is a digit in
  front of the point, the point is inserted, and then zeros are removed from the front
  (while the next character is not the point) and from the end (while the character
  before is not the point).
\<close>

definition Zeros :: string where
  "Zeros = ''0000''"

function padWhole :: "string \<Rightarrow> nat \<Rightarrow> string" where
  "padWhole str decs = (if length str \<le> decs then padWhole (Zeros @ str) decs else str)"
  by pat_completeness auto
termination
  by (relation "measure (\<lambda>(str, decs). Suc decs - length str)") (auto simp: Zeros_def)

text \<open>
  \<open>while (str[0] === "0" && str[1] !== ".") str = str.substring(1)\<close>; on a one-character
  text \<open>str[1]\<close> is \<open>undefined\<close>, which is not the point. The loop at the end of the text
  is the same loop on the reversed text.
\<close>

fun stripZeros :: "string \<Rightarrow> string" where
  "stripZeros (c # d # rest) =
     (if c = CHR ''0'' \<and> d \<noteq> CHR ''.'' then stripZeros (d # rest) else c # d # rest)"
| "stripZeros [c] = (if c = CHR ''0'' then [] else [c])"
| "stripZeros [] = []"

definition fixedToString :: "int \<Rightarrow> nat \<Rightarrow> string" where
  "fixedToString val decs =
     (let negative = (if val < 0 then ''-'' else []);
          str = natToString (nat \<bar>val\<bar>)
      in if decs = 0 then negative @ str
         else
           (let padded = padWhole str decs;
                index = length padded - decs;
                pointed = take index padded @ ''.'' @ drop index padded;
                trimmedWhole = stripZeros pointed;
                trimmedFraction = rev (stripZeros (rev trimmedWhole))
            in negative @ trimmedFraction))"

definition formatUnits_v6 :: "int \<Rightarrow> nat \<Rightarrow> string + string" where
  "formatUnits_v6 val unit =
     (if 80 < unit then Inl ''invalid FixedNumber decimals (too large)''
      else if val < - (2 ^ 511) \<or> 2 ^ 511 \<le> val then Inl ''overflow''
      else Inr (fixedToString val unit))"

section \<open>Stage 3: the position of the trader in every token\<close>

record positionResult =
  tokenAddress_r :: address
  position_r :: string
  success_r :: bool
  error_r :: "string option"

text \<open>
  The body of the loop over a batch's results. A call result carries no \<open>error\<close> field, so
  \<open>result.error || 'Call failed'\<close> is \<open>'Call failed'\<close>.
\<close>

definition decodePosition :: "ethers \<Rightarrow> address \<Rightarrow> callResult \<Rightarrow> positionResult" where
  "decodePosition E tokenAddress result =
     (if success result then
        (case decodeInt256 E (data result) of
           Inr position \<Rightarrow>
             \<lparr>tokenAddress_r = tokenAddress, position_r = bigint_toString position,
              success_r = True, error_r = None\<rparr>
         | Inl message \<Rightarrow>
             \<lparr>tokenAddress_r = tokenAddress, position_r = ''0'', success_r = False,
              error_r = Some message\<rparr>)
      else
        \<lparr>tokenAddress_r = tokenAddress, position_r = ''0'', success_r = False,
         error_r = Some ''Call failed''\<rparr>)"

fun positionLoop :: "ethers \<Rightarrow> address list \<Rightarrow> callResult list \<Rightarrow> nat \<Rightarrow> positionResult list \<times> bool" where
  "positionLoop E [] results j = ([], False)"
| "positionLoop E (tokenAddress # rest) results j =
     (case nth_opt results j of
        None \<Rightarrow> ([], True)
      | Some result \<Rightarrow>
          (case positionLoop E rest results (j + 1) of
             (entries, thrown) \<Rightarrow> (decodePosition E tokenAddress result # entries, thrown)))"

text \<open>
  \<open>getPosition\<close> catches every exception of the read itself and returns \<open>BigInt(0)\<close>, so
  it never throws.
\<close>

definition getPosition :: "remote \<Rightarrow> address \<Rightarrow> address \<Rightarrow> nat option \<Rightarrow> nat \<Rightarrow> int \<times> nat" where
  "getPosition r traderAddress tokenAddress blockNumber n =
     (case positions_at r n blockNumber traderAddress tokenAddress of
        Inr position \<Rightarrow> (position, Suc n)
      | Inl message \<Rightarrow> (0, Suc n))"

text \<open>
  The \<open>catch\<close> of a chunk in the library: since \<open>getPosition\<close> never throws, the inner
  \<open>catch\<close> that would push \<open>success: false\<close> is never entered.
\<close>

fun positionsFallback :: "remote \<Rightarrow> address \<Rightarrow> nat option \<Rightarrow> address list \<Rightarrow> nat \<Rightarrow> positionResult list \<times> nat" where
  "positionsFallback r traderAddress blockNumber [] n = ([], n)"
| "positionsFallback r traderAddress blockNumber (tokenAddress # rest) n =
     (case getPosition r traderAddress tokenAddress blockNumber n of
        (position, n') \<Rightarrow>
          (case positionsFallback r traderAddress blockNumber rest n' of
             (entries, n'') \<Rightarrow>
               (\<lparr>tokenAddress_r = tokenAddress, position_r = bigint_toString position,
                 success_r = True, error_r = None\<rparr> # entries, n'')))"

text \<open>
  The same \<open>catch\<close> in the browser client and in the HTTP handler, which read
  \<open>creditVault.positions\<close> directly inside the \<open>try\<close>.
\<close>

fun positionsFallback_web :: "remote \<Rightarrow> address \<Rightarrow> nat option \<Rightarrow> address list \<Rightarrow> nat \<Rightarrow> positionResult list \<times> nat" where
  "positionsFallback_web r traderAddress blockNumber [] n = ([], n)"
| "positionsFallback_web r traderAddress blockNumber (tokenAddress # rest) n =
     (case positionsFallback_web r traderAddress blockNumber rest (Suc n) of
        (entries, n'') \<Rightarrow>
          ((case positions_at r n blockNumber traderAddress tokenAddress of
              Inr position \<Rightarrow>
                \<lparr>tokenAddress_r = tokenAddress, position_r = bigint_toString position,
                 success_r = True, error_r = None\<rparr>
            | Inl message \<Rightarrow>
                \<lparr>tokenAddress_r = tokenAddress, position_r = ''0'', success_r = False,
                 error_r = None\<rparr>) # entries, n''))"

definition positionCalls :: "address \<Rightarrow> address \<Rightarrow> address list \<Rightarrow> contractCall list" where
  "positionCalls vault traderAddress batch =
     map (\<lambda>tokenAddress. createContractCall vault (Positions traderAddress tokenAddress)) batch"

definition positionChunk :: "ethers \<Rightarrow> remote \<Rightarrow> address \<Rightarrow> address \<Rightarrow> nat option \<Rightarrow> address list \<Rightarrow> nat \<Rightarrow> positionResult list \<times> nat" where
  "positionChunk E r vault traderAddress blockNumber batch n =
     (case batchCallWithRetry r (positionCalls vault traderAddress batch) 1 blockNumber n of
        (Inl message, n') \<Rightarrow> positionsFallback r traderAddress blockNumber batch n'
      | (Inr results, n') \<Rightarrow>
          (case positionLoop E batch results 0 of
             (entries, False) \<Rightarrow> (entries, n')
           | (entries, True) \<Rightarrow>
               (case positionsFallback r traderAddress blockNumber batch n' of
                  (again, n'') \<Rightarrow> (entries @ again, n''))))"

function positionChunks :: "ethers \<Rightarrow> remote \<Rightarrow> address \<Rightarrow> address \<Rightarrow> nat option \<Rightarrow> address list \<Rightarrow> nat \<Rightarrow> positionResult list \<Rightarrow> nat \<Rightarrow> positionResult list \<times> nat" where
  "positionChunks E r vault traderAddress blockNumber tokenAddresses i positions n =
     (if i < length tokenAddresses then
        (case positionChunk E r vault traderAddress blockNumber (take 20 (drop i tokenAddresses)) n of
           (entries, n') \<Rightarrow>
             positionChunks E r vault traderAddress blockNumber tokenAddresses (i + 20)
               (positions @ entries) n')
      else (positions, n))"
  by pat_completeness auto
termination
  by (relation "measure (\<lambda>(E, r, vault, traderAddress, blockNumber, tokenAddresses, i, positions, n). length tokenAddresses - i)") auto

definition batchGetPositions :: "ethers \<Rightarrow> remote \<Rightarrow> address \<Rightarrow> address \<Rightarrow> address list \<Rightarrow> nat option \<Rightarrow> nat \<Rightarrow> positionResult list \<times> nat" where
  "batchGetPositions E r vault traderAddress tokenAddresses blockNumber n =
     positionChunks E r vault traderAddress blockNumber tokenAddresses 0 [] n"

section \<open>The orchestrator\<close>

text \<open>Name and CreditVault address of every supported chain, with the default addresses.\<close>

definition CHAIN_CONFIGS :: "nat \<Rightarrow> (string \<times> address) option" where
  "CHAIN_CONFIGS c =
     (if c = 1 then Some (''Ethereum'', ''0xe3D41d19564922C9952f692C5Dd0563030f5f2EF'')
      else if c = 56 then Some (''BSC'', ''0xBA8dB0CAf781cAc69b6acf6C848aC148264Cc05d'')
      else if c = 42161 then Some (''Arbitrum'', ''0xbA1cf8A63227b46575AF823BEB4d83D1025eff09'')
      else if c = 8453 then Some (''Base'', ''0x74a4Cd023e5AfB88369E3f22b02440F2614a1367'')
      else None)"

definition SUPPORTED_CHAIN_IDS :: "nat list" where
  "SUPPORTED_CHAIN_IDS = [1, 56, 42161, 8453]"

definition isValidChainId :: "nat \<Rightarrow> bool" where
  "isValidChainId c = (c \<in> set SUPPORTED_CHAIN_IDS)"

datatype failure = InvalidAddress string | UnsupportedChain nat | Thrown string

text \<open>\<open>targetBlock || 'latest'\<close>: \<open>null\<close> and \<open>0\<close> are both reported as \<open>'latest'\<close>.\<close>

datatype blockLabel = Latest | Block nat

definition blockLabelOf :: "nat option \<Rightarrow> blockLabel" where
  "blockLabelOf targetBlock =
     (case targetBlock of None \<Rightarrow> Latest | Some b \<Rightarrow> if b = 0 then Latest else Block b)"

record positionData =
  tokenAddress :: address
  tokenSymbol :: string
  lpTokenAddress_d :: "address option"
  position :: string
  positionFormatted :: string
  decimals_d :: nat

record summary =
  totalTokens :: nat
  tokensWithPositions :: nat
  fetchTime :: int

record report =
  chainId :: nat
  chainName :: string
  pmmAddress :: string
  targetBlock :: blockLabel
  positions :: "positionData list"
  summary :: summary

text \<open>
  The joining loop \<open>for (i = 0; i < tokenData.length; i++)\<close>. An exception inside it
  (reading past the end of \<open>positionResults\<close>, \<open>BigInt\<close> on malformed text, the formatter)
  reaches the outer \<open>catch\<close>, which throws it again.
\<close>

fun joinLoop :: "ethers \<Rightarrow> tokenData list \<Rightarrow> positionResult list \<Rightarrow> nat \<Rightarrow> string + positionData list" where
  "joinLoop E [] positionResults i = Inr []"
| "joinLoop E (t # ts) positionResults i =
     (case nth_opt positionResults i of
        None \<Rightarrow> Inl ''TypeError''
      | Some positionResult \<Rightarrow>
          if success_r positionResult \<and> position_r positionResult \<noteq> ''0'' then
            (case BigInt (position_r positionResult) of
               None \<Rightarrow> Inl ''SyntaxError''
             | Some pos \<Rightarrow>
                 (case formatUnits E pos (decimals t) of
                    Inl message \<Rightarrow> Inl message
                  | Inr formatted \<Rightarrow>
                      (case joinLoop E ts positionResults (i + 1) of
                         Inl message \<Rightarrow> Inl message
                       | Inr rest \<Rightarrow>
                           Inr (\<lparr>tokenAddress = underlyingAddress t, tokenSymbol = symbol t,
                                 lpTokenAddress_d = (if isLPToken t then Some (lpTokenAddress t) else None),
                                 position = bigint_toString pos, positionFormatted = formatted,
                                 decimals_d = decimals t\<rparr> # rest))))
          else joinLoop E ts positionResults (i + 1))"

text \<open>
  \<open>listPmmPositions\<close>. \<open>clock k\<close> is the \<open>k\<close>-th reading of \<open>Date.now()\<close> of the run; the
  integer threaded through is the number of requests issued so far.
\<close>

definition listPmmPositions :: "ethers \<Rightarrow> remote \<Rightarrow> (nat \<Rightarrow> int) \<Rightarrow> string \<Rightarrow> nat \<Rightarrow> nat option \<Rightarrow> nat \<Rightarrow> (failure + report) \<times> nat" where
  "listPmmPositions E r clock pmmAddr chain targetBlk n =
     (if \<not> isAddress E pmmAddr then (Inl (InvalidAddress pmmAddr), n)
      else if \<not> isValidChainId chain then (Inl (UnsupportedChain chain), n)
      else
        (case CHAIN_CONFIGS chain of
           None \<Rightarrow> (Inl (UnsupportedChain chain), n)
         | Some (name, vault) \<Rightarrow>
             (case getAllLPTokens r targetBlk n of
                (Inl message, n1) \<Rightarrow> (Inl (Thrown message), n1)
              | (Inr lpTokens, n1) \<Rightarrow>
                  if length lpTokens = 0 then
                    (Inr \<lparr>chainId = chain, chainName = name, pmmAddress = pmmAddr,
                          targetBlock = blockLabelOf targetBlk, positions = [],
                          summary = \<lparr>totalTokens = 0, tokensWithPositions = 0,
                                     fetchTime = clock 1 - clock 0\<rparr>\<rparr>, n1)
                  else
                    (case batchGetUnderlyingTokens E r lpTokens targetBlk n1 of
                       (tokenData, n2) \<Rightarrow>
                         (case batchGetPositions E r vault pmmAddr (map underlyingAddress tokenData)
                                 targetBlk n2 of
                            (positionResults, n3) \<Rightarrow>
                              (case joinLoop E tokenData positionResults 0 of
                                 Inl message \<Rightarrow> (Inl (Thrown message), n3)
                               | Inr entries \<Rightarrow>
                                   (Inr \<lparr>chainId = chain, chainName = name, pmmAddress = pmmAddr,
                                         targetBlock = blockLabelOf targetBlk, positions = entries,
                                         summary = \<lparr>totalTokens = length tokenData,
                                                    tokensWithPositions = length entries,
                                                    fetchTime = clock 1 - clock 0\<rparr>\<rparr>, n3)))))))"

section \<open>Concrete endpoints and library stubs used to exercise the model\<close>

text \<open>
  A library stub: every non-empty text is an address, a decoder returns the raw data
  (numbers by their length) and fails on empty data, and the formatter returns the
  decimal text of the raw quantity.
\<close>

definition stubEthers :: ethers where
  "stubEthers =
     \<lparr>isAddress = (\<lambda>s. s \<noteq> []),
      decodeAddress = (\<lambda>b. if b = [] then Inl ''bad data'' else Inr b),
      decodeUint8 = (\<lambda>b. if b = [] then Inl ''bad data'' else Inr (length b)),
      decodeString = (\<lambda>b. if b = [] then Inl ''bad data'' else Inr b),
      decodeInt256 = (\<lambda>b. if b = [] then Inl ''bad data'' else Inr (int (length b) - 2)),
      formatUnits = (\<lambda>v d. Inr (bigint_toString v))\<rparr>"

text \<open>An endpoint whose every request fails with a time-out.\<close>

definition timeoutRemote :: remote where
  "timeoutRemote =
     \<lparr>probe = None,
      allLPTokens_at = (\<lambda>n b i. Inl ''timeout''),
      aggregate3_throws = (\<lambda>n b cs. Some ''timeout''),
      aggregate3_result = (\<lambda>n b cs k. (False, [])),
      underlying_at = (\<lambda>n b a. Inl ''timeout''),
      decimals_at = (\<lambda>n b a. Inl ''timeout''),
      symbol_at = (\<lambda>n b a. Inl ''timeout''),
      positions_at = (\<lambda>n b t a. Inl ''timeout'')\<rparr>"

text \<open>A registry that answers every index with the same non-zero address.\<close>

definition endlessRemote :: remote where
  "endlessRemote = timeoutRemote\<lparr>allLPTokens_at := (\<lambda>n b i. Inr ''0xA1'')\<rparr>"

text \<open>
  An endpoint whose aggregator answers every request; in the first request (number 0)
  the calls at odd positions fail, later requests succeed throughout.
\<close>

definition flakyRemote :: remote where
  "flakyRemote =
     timeoutRemote\<lparr>aggregate3_throws := (\<lambda>n b cs. None),
                    aggregate3_result := (\<lambda>n b cs k. if n = 0 \<and> odd k then (False, []) else (True, ''0x07''))\<rparr>"

definition exampleCalls :: "contractCall list" where
  "exampleCalls =
     [createContractCall ''0xA1'' Underlying, createContractCall ''0xA1'' Decimals,
      createContractCall ''0xA1'' Symbol]"

text \<open>
  A registry of three LP tokens. The aggregator answers every request; the \<open>underlying\<close>
  call of the second token fails at every attempt. With \<open>stubEthers\<close> the trader
  \<open>0xB0B\<close> holds 3 units of the first underlying token, nothing of the second token and
  -1 of the third; every other trader holds nothing at all.
\<close>

definition demoAnswer :: "contractCall \<Rightarrow> bool \<times> bytes" where
  "demoAnswer c =
     (case callData c of
        Underlying \<Rightarrow>
          if target c = ''0xA1'' then (True, ''0xU1'')
          else if target c = ''0xA3'' then (True, ''0xU3'')
          else (False, [])
      | Decimals \<Rightarrow> (True, ''123456'')
      | Symbol \<Rightarrow> (True, ''TKN'')
      | Positions trader token \<Rightarrow>
          if trader = ''0xB0B'' \<and> token = ''0xU1'' then (True, ''12345'')
          else if trader = ''0xB0B'' \<and> token = ''0xU3'' then (True, ''1'')
          else (True, ''12''))"

definition demoRemote :: remote where
  "demoRemote =
     timeoutRemote\<lparr>allLPTokens_at := (\<lambda>n b i. if i = 0 then Inr ''0xA1'' else if i = 1 then Inr ''0xA2''
                                              else if i = 2 then Inr ''0xA3'' else Inl ''execution reverted''),
                    aggregate3_throws := (\<lambda>n b cs. None),
                    aggregate3_result := (\<lambda>n b cs k. demoAnswer (cs ! k))\<rparr>"

text \<open>Two clocks: a run under the first takes 250 ms, under the second 400 ms.\<close>

definition demoClock :: "nat \<Rightarrow> int" where
  "demoClock k = (if k = 0 then 1000 else 1250)"

definition laterClock :: "nat \<Rightarrow> int" where
  "laterClock k = (if k = 0 then 2000 else 2400)"

text \<open>What a run against \<open>demoRemote\<close> on chain 56 returns.\<close>

definition demoMetadata :: "tokenData list" where
  "demoMetadata =
     [\<lparr>lpTokenAddress = ''0xA1'', underlyingAddress = ''0xU1'', decimals = 6, symbol = ''TKN'', isLPToken = True\<rparr>,
      \<lparr>lpTokenAddress = ''0xA2'', underlyingAddress = ''0xA2'', decimals = 18, symbol = ''LP'', isLPToken = False\<rparr>,
      \<lparr>lpTokenAddress = ''0xA3'', underlyingAddress = ''0xU3'', decimals = 6, symbol = ''TKN'', isLPToken = True\<rparr>]"

definition demoQuantities :: "positionResult list" where
  "demoQuantities =
     [\<lparr>tokenAddress_r = ''0xU1'', position_r = ''3'', success_r = True, error_r = None\<rparr>,
      \<lparr>tokenAddress_r = ''0xA2'', position_r = ''0'', success_r = True, error_r = None\<rparr>,
      \<lparr>tokenAddress_r = ''0xU3'', position_r = ''-1'', success_r = True, error_r = None\<rparr>]"

definition zeroQuantities :: "positionResult list" where
  "zeroQuantities =
     [\<lparr>tokenAddress_r = ''0xU1'', position_r = ''0'', success_r = True, error_r = None\<rparr>,
      \<lparr>tokenAddress_r = ''0xA2'', position_r = ''0'', success_r = True, error_r = None\<rparr>,
      \<lparr>tokenAddress_r = ''0xU3'', position_r = ''0'', success_r = True, error_r = None\<rparr>]"

definition demoReport :: report where
  "demoReport =
     \<lparr>chainId = 56, chainName = ''BSC'', pmmAddress = ''0xB0B'', targetBlock = Latest,
      positions = [\<lparr>tokenAddress = ''0xU1'', tokenSymbol = ''TKN'', lpTokenAddress_d = Some ''0xA1'',
                     position = ''3'', positionFormatted = ''3'', decimals_d = 6\<rparr>,
                   \<lparr>tokenAddress = ''0xU3'', tokenSymbol = ''TKN'', lpTokenAddress_d = Some ''0xA3'',
                     position = ''-1'', positionFormatted = ''-1'', decimals_d = 6\<rparr>],
      summary = \<lparr>totalTokens = 3, tokensWithPositions = 2, fetchTime = 250\<rparr>\<rparr>"

text \<open>The report of the same run under the second clock: only the elapsed time differs.\<close>

definition laterReport :: report where
  "laterReport =
     \<lparr>chainId = 56, chainName = ''BSC'', pmmAddress = ''0xB0B'', targetBlock = Latest,
      positions = [\<lparr>tokenAddress = ''0xU1'', tokenSymbol = ''TKN'', lpTokenAddress_d = Some ''0xA1'',
                     position = ''3'', positionFormatted = ''3'', decimals_d = 6\<rparr>,
                   \<lparr>tokenAddress = ''0xU3'', tokenSymbol = ''TKN'', lpTokenAddress_d = Some ''0xA3'',
                     position = ''-1'', positionFormatted = ''-1'', decimals_d = 6\<rparr>],
      summary = \<lparr>totalTokens = 3, tokensWithPositions = 2, fetchTime = 400\<rparr>\<rparr>"

text \<open>The nine call results of the metadata batch of \<open>demoRemote\<close>, after the retry.\<close>

definition demoResults :: "callResult list" where
  "demoResults =
     map (\<lambda>c. \<lparr>success = fst (demoAnswer c), data = snd (demoAnswer c), call = c\<rparr>)
       (tripletCalls [''0xA1'', ''0xA2'', ''0xA3''])"

section \<open>Vocabulary of the statements\<close>

text \<open>
  The registry never signals the end to a scan that starts at request number \<open>n\<close>: the
  read of every index up to 1000 returns a non-empty, non-zero address.
\<close>

definition neverTerminal :: "remote \<Rightarrow> nat option \<Rightarrow> nat \<Rightarrow> bool" where
  "neverTerminal r b n =
     list_all (\<lambda>i. case allLPTokens_at r (n + i) b i of
                     Inr a \<Rightarrow> truthy a \<and> a \<noteq> ZeroAddress
                   | Inl message \<Rightarrow> False) [0..<1001]"

text \<open>The same from a running index: what the scan still has to read.\<close>

definition readsFrom :: "remote \<Rightarrow> nat option \<Rightarrow> nat \<Rightarrow> nat \<Rightarrow> bool" where
  "readsFrom r b n index = (\<forall>i. index \<le> i \<and> i \<le> 1000 \<longrightarrow>
      (case allLPTokens_at r (n + (i - index)) b i of Inr a \<Rightarrow> truthy a \<and> a \<noteq> ZeroAddress | Inl m \<Rightarrow> False))"

text \<open>
  The retry of \<open>batchCallWithRetry\<close> written position by position. \<open>failedIndices\<close> are
  the indices whose result is not successful, in ascending order; \<open>rank results i\<close> is the
  place of index \<open>i\<close> among them. One round submits the calls at the failed indices and
  keeps every successful result, replacing a failed one by the answer to its own call.
\<close>

definition failedIndices :: "callResult list \<Rightarrow> nat list" where
  "failedIndices results = filter (\<lambda>i. \<not> success (results ! i)) [0..<length results]"

definition rank :: "callResult list \<Rightarrow> nat \<Rightarrow> nat" where
  "rank results i = length (filter (\<lambda>j. \<not> success (results ! j)) [0..<i])"

definition mergeRetry :: "callResult list \<Rightarrow> callResult list \<Rightarrow> callResult list" where
  "mergeRetry results retryResults =
     map (\<lambda>i. if success (results ! i) then results ! i else retryResults ! rank results i)
       [0..<length results]"

fun retryRounds :: "remote \<Rightarrow> contractCall list \<Rightarrow> nat option \<Rightarrow> nat \<Rightarrow> callResult list \<Rightarrow> nat \<Rightarrow> (string + callResult list) \<times> nat" where
  "retryRounds r contractCalls blockNumber 0 results n = (Inr results, n)"
| "retryRounds r contractCalls blockNumber (Suc remaining) results n =
     (if failedIndices results = [] then (Inr results, n)
      else
        (case batchCall r (map (\<lambda>i. contractCalls ! i) (failedIndices results)) blockNumber n of
           (Inl message, n') \<Rightarrow> (Inl message, n')
         | (Inr retryResults, n') \<Rightarrow>
             retryRounds r contractCalls blockNumber remaining (mergeRetry results retryResults) n'))"

text \<open>The entry of the item at place \<open>j\<close> of a batch, read off its own three results.\<close>

definition tripletEntry :: "ethers \<Rightarrow> address \<Rightarrow> callResult list \<Rightarrow> nat \<Rightarrow> tokenData" where
  "tripletEntry E lp results j =
     (if success (results ! (j * 3)) \<and> success (results ! (j * 3 + 1)) \<and> success (results ! (j * 3 + 2))
      then decodeTriplet E lp (results ! (j * 3)) (results ! (j * 3 + 1)) (results ! (j * 3 + 2))
      else fallbackToken lp)"

text \<open>
  The signed quantity a position result stands for is the integer its decimal text
  denotes. A result counts as a position when it is successful and its quantity is not
  zero. \<open>canonical\<close> says that the text is exactly the decimal text of that quantity.
\<close>

definition quantity :: "positionResult \<Rightarrow> int" where
  "quantity pr = (case BigInt (position_r pr) of Some q \<Rightarrow> q | None \<Rightarrow> 0)"

definition hasPosition :: "positionResult \<Rightarrow> bool" where
  "hasPosition pr = (success_r pr \<and> quantity pr \<noteq> 0)"

definition canonical :: "positionResult \<Rightarrow> bool" where
  "canonical pr = (position_r pr = bigint_toString (quantity pr))"

text \<open>The indices, in ascending order, whose position result counts as a position.\<close>

definition keptIndices :: "positionResult list \<Rightarrow> nat list" where
  "keptIndices positionResults =
     filter (\<lambda>i. hasPosition (positionResults ! i)) [0..<length positionResults]"

text \<open>The report entry built from the metadata and the position result of one index.\<close>

definition entryAt :: "ethers \<Rightarrow> tokenData \<Rightarrow> positionResult \<Rightarrow> positionData" where
  "entryAt E t pr =
     \<lparr>tokenAddress = underlyingAddress t, tokenSymbol = symbol t,
      lpTokenAddress_d = (if isLPToken t then Some (lpTokenAddress t) else None),
      position = bigint_toString (quantity pr),
      positionFormatted = (case formatUnits E (quantity pr) (decimals t) of
                             Inr formatted \<Rightarrow> formatted | Inl message \<Rightarrow> []),
      decimals_d = decimals t\<rparr>"

text \<open>
  The lists the orchestrator holds during a run that starts at request number \<open>n\<close>: the
  discovered items, their metadata and their position results.
\<close>

definition runItems :: "remote \<Rightarrow> nat option \<Rightarrow> nat \<Rightarrow> address list" where
  "runItems r targetBlk n =
     (case fst (getAllLPTokens r targetBlk n) of Inr lpTokens \<Rightarrow> lpTokens | Inl message \<Rightarrow> [])"

definition runMetadata :: "ethers \<Rightarrow> remote \<Rightarrow> nat option \<Rightarrow> nat \<Rightarrow> tokenData list \<times> nat" where
  "runMetadata E r targetBlk n =
     batchGetUnderlyingTokens E r (runItems r targetBlk n) targetBlk (snd (getAllLPTokens r targetBlk n))"

definition runQuantities :: "ethers \<Rightarrow> remote \<Rightarrow> string \<Rightarrow> nat \<Rightarrow> nat option \<Rightarrow> nat \<Rightarrow> positionResult list" where
  "runQuantities E r pmmAddr chain targetBlk n =
     (case CHAIN_CONFIGS chain of
        None \<Rightarrow> []
      | Some (name, vault) \<Rightarrow>
          fst (batchGetPositions E r vault pmmAddr
                 (map underlyingAddress (fst (runMetadata E r targetBlk n))) targetBlk
                 (snd (runMetadata E r targetBlk n))))"

text \<open>A result of \<open>listPmmPositions\<close> with the elapsed time of the run blanked out.\<close>

definition withoutFetchTime :: "failure + report \<Rightarrow> failure + report" where
  "withoutFetchTime res =
     (case res of
        Inl e \<Rightarrow> Inl e
      | Inr rep \<Rightarrow> Inr (rep\<lparr>summary := (summary rep)\<lparr>fetchTime := 0\<rparr>\<rparr>))"

text \<open>
  No change of the remote state at the height \<open>b\<close>: what the endpoint answers to a read
  of the registry, to an aggregate request and to a single typed read at that height does
  not depend on the number of the request, that is, on when it is asked. A transient
  failure, which answers one attempt and not the next, is a change in this sense.
\<close>

definition steadyAt :: "remote \<Rightarrow> nat option \<Rightarrow> bool" where
  "steadyAt r b =
     (\<forall>n. allLPTokens_at r n b = allLPTokens_at r 0 b
        \<and> aggregate3_throws r n (blockOptions b) = aggregate3_throws r 0 (blockOptions b)
        \<and> aggregate3_result r n (blockOptions b) = aggregate3_result r 0 (blockOptions b)
        \<and> underlying_at r n b = underlying_at r 0 b
        \<and> decimals_at r n b = decimals_at r 0 b
        \<and> symbol_at r n b = symbol_at r 0 b
        \<and> positions_at r n b = positions_at r 0 b)"

text \<open>The outcome of a computation started \<open>d\<close> requests later: the same value, the request counter advanced by \<open>d\<close>.\<close>

definition shiftBy :: "nat \<Rightarrow> 'a \<times> nat \<Rightarrow> 'a \<times> nat" where
  "shiftBy d p = (fst p, snd p + d)"

text \<open>
  The specification's \<open>parse(s, scale)\<close>: the integer that a decimal text stands for at a
  scale. The text is an optional minus sign, at least one digit, and optionally a point
  followed by at most \<open>scale\<close> digits; missing fractional digits count as zeros. The
  repository has no such function; it is the reading against which the formatter is
  judged.
\<close>

definition splitPoint :: "string \<Rightarrow> string \<times> string" where
  "splitPoint s =
     (takeWhile (\<lambda>c. c \<noteq> CHR ''.'') s, drop 1 (dropWhile (\<lambda>c. c \<noteq> CHR ''.'') s))"

definition parseMagnitude :: "string \<Rightarrow> nat \<Rightarrow> nat option" where
  "parseMagnitude s scale =
     (case splitPoint s of
        (whole, fraction) \<Rightarrow>
          if whole = [] \<or> scale < length fraction then None
          else
            (case parseDigits whole 0 of
               None \<Rightarrow> None
             | Some w \<Rightarrow>
                 (case parseDigits fraction 0 of
                    None \<Rightarrow> None
                  | Some f \<Rightarrow> Some (w * 10 ^ scale + f * 10 ^ (scale - length fraction)))))"

definition parse_spec :: "string \<Rightarrow> nat \<Rightarrow> int option" where
  "parse_spec s scale =
     (if s \<noteq> [] \<and> hd s = CHR ''-'' then map_option (\<lambda>m. - int m) (parseMagnitude (tl s) scale)
      else map_option int (parseMagnitude s scale))"

text \<open>A text of decimal digits only, and the number it denotes.\<close>

definition isDigits :: "string \<Rightarrow> bool" where
  "isDigits xs = list_all (\<lambda>c. digitVal c \<noteq> None) xs"

definition dval :: "string \<Rightarrow> nat" where
  "dval xs = (case parseDigits xs 0 of Some k \<Rightarrow> k | None \<Rightarrow> 0)"

text \<open>
  A decimal text in trimmed form at a scale: an optional minus sign, a whole part of
  digits without a leading zero (a single \<open>0\<close> when it is zero) and, when the scale is
  not 0, a point followed by at least one and at most \<open>scale\<close> digits without a
  trailing zero (a single \<open>0\<close> when the fraction is zero); at scale 0 there is no point.
  A text with a minus sign does not stand for zero.
\<close>

definition trimmedText :: "string \<Rightarrow> nat \<Rightarrow> bool" where
  "trimmedText s scale =
     (let negative = (s \<noteq> [] \<and> hd s = CHR ''-'');
          body = (if negative then tl s else s);
          whole = fst (splitPoint body);
          fraction = snd (splitPoint body)
      in isDigits whole \<and> whole \<noteq> [] \<and> (length whole = 1 \<or> hd whole \<noteq> CHR ''0'')
         \<and> (if scale = 0 then body = whole
             else body = whole @ ''.'' @ fraction \<and> isDigits fraction
                  \<and> 1 \<le> length fraction \<and> length fraction \<le> scale
                  \<and> (length fraction = 1 \<or> last fraction \<noteq> CHR ''0''))
         \<and> (if negative then parse_spec s scale \<noteq> Some 0 else True))"

text \<open>
  The two forms a metadata entry can take: the fallback value of its own LP token, or a
  resolved entry, marked as derived, whose underlying token is not the zero address.
\<close>

definition fallbackOrResolved :: "tokenData \<Rightarrow> bool" where
  "fallbackOrResolved t =
     (t = fallbackToken (lpTokenAddress t) \<or> (isLPToken t \<and> underlyingAddress t \<noteq> ZeroAddress))"

section \<open>The registry scan: termination, bounds and error handling\<close>

declare scanLoop.simps [simp del]
declare handlerScan.simps [simp del]

lemma scanLoop_bounds:
  "index \<le> 1000 \<Longrightarrow> length (fst (scanLoop r b index acc n)) + index \<le> length acc + 1001
     \<and> snd (scanLoop r b index acc n) + index \<le> n + 1001"
proof (induction r b index acc n rule: scanLoop.induct)
  case (1 r b index acc n)
  note le = \<open>index \<le> 1000\<close>
  show ?case
  proof (cases "allLPTokens_at r n b index")
    case (Inl m)
    then have "scanLoop r b index acc n = (acc, Suc n)" by (simp add: scanLoop.simps)
    then show ?thesis using le by simp
  next
    case (Inr a)
    show ?thesis
    proof (cases "truthy a \<and> a \<noteq> ZeroAddress")
      case False
      then have "scanLoop r b index acc n = (acc, Suc n)" using Inr by (auto simp add: scanLoop.simps)
      then show ?thesis using le by simp
    next
      case True
      show ?thesis
      proof (cases "index + 1 > 1000")
        case T: True 
        then have "scanLoop r b index acc n = (acc @ [a], Suc n)" using Inr True by (simp add: scanLoop.simps)
        then show ?thesis using le by simp
      next
        case F: False
        have le': "index + 1 \<le> 1000" using F by simp
        have eq: "scanLoop r b index acc n = scanLoop r b (index + 1) (acc @ [a]) (Suc n)"
          using Inr True F by (simp add: scanLoop.simps)
        from 1(1)[OF Inr True F le'] show ?thesis unfolding eq by simp
      qed
    qed
  qed
qed

lemma handlerScan_bounds:
  "index \<le> 1000 \<Longrightarrow>
     (case fst (handlerScan r b index acc n) of Inr lp \<Rightarrow> length lp + index \<le> length acc + 1001 | Inl m \<Rightarrow> True)
     \<and> snd (handlerScan r b index acc n) + index \<le> n + 1001"
proof (induction r b index acc n rule: handlerScan.induct)
  case (1 r b index acc n)
  note le = \<open>index \<le> 1000\<close>
  show ?case
  proof (cases "allLPTokens_at r n b index")
    case (Inl m)
    then have "handlerScan r b index acc n = (Inr acc, Suc n) \<or> handlerScan r b index acc n = (Inl m, Suc n)"
      by (simp add: handlerScan.simps)
    then show ?thesis using le by auto
  next
    case (Inr a)
    show ?thesis
    proof (cases "truthy a \<and> a \<noteq> ZeroAddress")
      case False
      then have "handlerScan r b index acc n = (Inr acc, Suc n)" using Inr by (auto simp add: handlerScan.simps)
      then show ?thesis using le by simp
    next
      case True
      show ?thesis
      proof (cases "index + 1 > 1000")
        case T: True 
        then have "handlerScan r b index acc n = (Inr (acc @ [a]), Suc n)" using Inr True by (simp add: handlerScan.simps)
        then show ?thesis using le by simp
      next
        case F: False
        have le': "index + 1 \<le> 1000" using F by simp
        have eq: "handlerScan r b index acc n = handlerScan r b (index + 1) (acc @ [a]) (Suc n)"
          using Inr True F by (simp add: handlerScan.simps)
        from 1(1)[OF Inr True F le'] show ?thesis unfolding eq by (simp split: sum.splits)
      qed
    qed
  qed
qed

lemma readsFrom_Suc: "readsFrom r b n index \<Longrightarrow> readsFrom r b (Suc n) (index + 1)"
  unfolding readsFrom_def
proof (intro allI impI)
  fix i assume h: "\<forall>i. index \<le> i \<and> i \<le> 1000 \<longrightarrow> (case allLPTokens_at r (n + (i - index)) b i of Inr a \<Rightarrow> truthy a \<and> a \<noteq> ZeroAddress | Inl m \<Rightarrow> False)"
     and a: "index + 1 \<le> i \<and> i \<le> 1000"
  have "Suc n + (i - (index + 1)) = n + (i - index)" using a by arith
  then show "(case allLPTokens_at r (Suc n + (i - (index + 1))) b i of Inr a \<Rightarrow> truthy a \<and> a \<noteq> ZeroAddress | Inl m \<Rightarrow> False)"
    using h a by simp
qed

lemma reads_shift:
  "map (\<lambda>i. projr (allLPTokens_at r (Suc n + (i - (index + 1))) b i)) [index + 1..<1001]
           = map (\<lambda>i. projr (allLPTokens_at r (n + (i - index)) b i)) [index + 1..<1001]"
proof (rule map_cong)
  fix x assume "x \<in> set [index + 1..<1001]"
  then have "index + 1 \<le> x" by simp
  then have "Suc n + (x - (index + 1)) = n + (x - index)" by arith
  then show "projr (allLPTokens_at r (Suc n + (x - (index + 1))) b x) = projr (allLPTokens_at r (n + (x - index)) b x)"
    by (rule arg_cong[where f="\<lambda>k. projr (allLPTokens_at r k b x)"])
qed simp

lemma readsFrom_head:
  assumes "readsFrom r b n index" "index \<le> 1000"
  obtains a where "allLPTokens_at r n b index = Inr a" "truthy a \<and> a \<noteq> ZeroAddress"
proof -
  from assms have "case allLPTokens_at r (n + (index - index)) b index of Inr a \<Rightarrow> truthy a \<and> a \<noteq> ZeroAddress | Inl m \<Rightarrow> False"
    unfolding readsFrom_def by blast
  then show thesis using that by (cases "allLPTokens_at r n b index") auto
qed

lemma scanLoop_all:
  "index \<le> 1000 \<Longrightarrow> readsFrom r b n index \<Longrightarrow>
   scanLoop r b index acc n = (acc @ map (\<lambda>i. projr (allLPTokens_at r (n + (i - index)) b i)) [index..<1001], n + (1001 - index))"
proof (induction r b index acc n rule: scanLoop.induct)
  case (1 r b index acc n)
  note le = \<open>index \<le> 1000\<close>
  from 1(3) le obtain a where Inr: "allLPTokens_at r n b index = Inr a" and ok: "truthy a \<and> a \<noteq> ZeroAddress"
    by (rule readsFrom_head)
  have upt: "[index..<1001] = index # [index + 1..<1001]" using le by (simp add: upt_conv_Cons)
  show ?case
  proof (cases "index + 1 > 1000")
    case T: True
    then have i: "index = 1000" using le by simp
    have "scanLoop r b index acc n = (acc @ [a], Suc n)" using Inr ok T by (simp add: scanLoop.simps)
    then show ?thesis using Inr i by (simp add: upt_conv_Cons)
  next
    case F: False
    have le': "index + 1 \<le> 1000" using F by simp
    have eq: "scanLoop r b index acc n = scanLoop r b (index + 1) (acc @ [a]) (Suc n)"
      using Inr ok F by (simp add: scanLoop.simps)
    from 1(1)[OF Inr ok F le' readsFrom_Suc[OF 1(3)]] show ?thesis unfolding eq upt using Inr le' reads_shift[where r=r and n=n and index=index and b=b] by simp
  qed
qed

lemma handlerScan_all:
  "index \<le> 1000 \<Longrightarrow> readsFrom r b n index \<Longrightarrow>
   handlerScan r b index acc n = (Inr (acc @ map (\<lambda>i. projr (allLPTokens_at r (n + (i - index)) b i)) [index..<1001]), n + (1001 - index))"
proof (induction r b index acc n rule: handlerScan.induct)
  case (1 r b index acc n)
  note le = \<open>index \<le> 1000\<close>
  from 1(3) le obtain a where Inr: "allLPTokens_at r n b index = Inr a" and ok: "truthy a \<and> a \<noteq> ZeroAddress"
    by (rule readsFrom_head)
  have upt: "[index..<1001] = index # [index + 1..<1001]" using le by (simp add: upt_conv_Cons)
  show ?case
  proof (cases "index + 1 > 1000")
    case T: True
    then have i: "index = 1000" using le by simp
    have "handlerScan r b index acc n = (Inr (acc @ [a]), Suc n)" using Inr ok T by (simp add: handlerScan.simps)
    then show ?thesis using Inr i by (simp add: upt_conv_Cons)
  next
    case F: False
    have le': "index + 1 \<le> 1000" using F by simp
    have eq: "handlerScan r b index acc n = handlerScan r b (index + 1) (acc @ [a]) (Suc n)"
      using Inr ok F by (simp add: handlerScan.simps)
    from 1(1)[OF Inr ok F le' readsFrom_Suc[OF 1(3)]] show ?thesis unfolding eq upt using Inr le' reads_shift[where r=r and n=n and index=index and b=b] by simp
  qed
qed

lemma neverTerminal_readsFrom: "neverTerminal r b n \<Longrightarrow> readsFrom r b n 0"
  unfolding neverTerminal_def readsFrom_def list_all_iff by auto

text \<open>
  Claim C9. The registry scan always terminates (\<open>scanLoop\<close> and \<open>handlerScan\<close> are total
  functions: each pass moves the index towards 1001) and returns at most 1001 item
  identities after at most 1001 reads. The loop leaves only once the index has exceeded
  1000: against a registry that never gives a terminal signal the indices 0 to 1000
  inclusive are all read and collected, one item more than the nominal cap of 1000.
\<close>

theorem getAllLPTokens_bounded:
  "(case getAllLPTokens r b n of
      (Inr lpTokens, n') \<Rightarrow> length lpTokens \<le> 1001 \<and> n' \<le> n + 1001
    | (Inl message, n') \<Rightarrow> n' = n)
   \<and> (case handlerScan r b 0 [] n of
         (Inr lpTokens, n') \<Rightarrow> length lpTokens \<le> 1001 \<and> n' \<le> n + 1001
       | (Inl message, n') \<Rightarrow> n' \<le> n + 1001)
   \<and> (neverTerminal r b n \<longrightarrow>
        handlerScan r b 0 [] n
          = (Inr (map (\<lambda>i. projr (allLPTokens_at r (n + i) b i)) [0..<1001]), n + 1001)
        \<and> (probe r = None \<longrightarrow>
             getAllLPTokens r b n
               = (Inr (map (\<lambda>i. projr (allLPTokens_at r (n + i) b i)) [0..<1001]), n + 1001)))"
proof (intro conjI impI)
  show "case getAllLPTokens r b n of
      (Inr lpTokens, n') \<Rightarrow> length lpTokens \<le> 1001 \<and> n' \<le> n + 1001
    | (Inl message, n') \<Rightarrow> n' = n"
    using scanLoop_bounds[where index=0 and r=r and b=b and acc="[]" and n=n]
    by (auto simp: getAllLPTokens_def getProvider_def split: option.splits prod.splits sum.splits)
  show "case handlerScan r b 0 [] n of
         (Inr lpTokens, n') \<Rightarrow> length lpTokens \<le> 1001 \<and> n' \<le> n + 1001
       | (Inl message, n') \<Rightarrow> n' \<le> n + 1001"
    using handlerScan_bounds[where index=0 and r=r and b=b and acc="[]" and n=n]
    by (auto split: prod.splits sum.splits)
next
  assume nt: "neverTerminal r b n"
  show "handlerScan r b 0 [] n
          = (Inr (map (\<lambda>i. projr (allLPTokens_at r (n + i) b i)) [0..<1001]), n + 1001)"
    using handlerScan_all[OF _ neverTerminal_readsFrom[OF nt], where acc="[]"] by simp
  assume "probe r = None"
  then show "getAllLPTokens r b n
               = (Inr (map (\<lambda>i. projr (allLPTokens_at r (n + i) b i)) [0..<1001]), n + 1001)"
    using scanLoop_all[OF _ neverTerminal_readsFrom[OF nt], where acc="[]"]
    by (simp add: getAllLPTokens_def getProvider_def)
qed

theorem getAllLPTokens_bounded_witness:
  "neverTerminal endlessRemote None 0
   \<and> probe endlessRemote = None
   \<and> getAllLPTokens endlessRemote None 0 = (Inr (replicate 1001 ''0xA1''), 1001)
   \<and> handlerScan endlessRemote None 0 [] 0 = (Inr (replicate 1001 ''0xA1''), 1001)"
proof -
  have nt: "neverTerminal endlessRemote None 0"
    by (simp add: neverTerminal_def endlessRemote_def timeoutRemote_def list_all_iff truthy_def ZeroAddress_def)
  have p: "probe endlessRemote = None" by (simp add: endlessRemote_def timeoutRemote_def)
  have m: "map (\<lambda>i. projr (allLPTokens_at endlessRemote (0 + i) None i)) [0..<1001] = replicate 1001 ''0xA1''"
    by (simp add: endlessRemote_def timeoutRemote_def map_replicate_const)
  show ?thesis using getAllLPTokens_bounded[where r=endlessRemote and b=None and n=0] nt p m by simp
qed

text \<open>
  Claim C1. An error of the indexed read that is neither the sentinel nor a revert should
  abort the scan and surface as a failure. The HTTP handler does so; the library scan
  (and the identical browser scan) leaves the loop with \<open>break\<close> in both arms of its
  \<open>catch\<close>, so a time-out at index 0 is taken for the end of the registry and the caller
  receives the empty report.
\<close>

theorem scan_swallows_generic_error:
  "getAllLPTokens timeoutRemote None 0 = (Inr [], 1)
   \<and> handlerScan timeoutRemote None 0 [] 0 = (Inl ''timeout'', 1)
   \<and> fst (listPmmPositions stubEthers timeoutRemote demoClock ''0xB0B'' 56 None 0)
       = Inr \<lparr>chainId = 56, chainName = ''BSC'', pmmAddress = ''0xB0B'', targetBlock = Latest,
              positions = [], summary = \<lparr>totalTokens = 0, tokensWithPositions = 0, fetchTime = 250\<rparr>\<rparr>"
  by (simp add: getAllLPTokens_def getProvider_def scanLoop.simps handlerScan.simps timeoutRemote_def
       listPmmPositions_def stubEthers_def isValidChainId_def SUPPORTED_CHAIN_IDS_def CHAIN_CONFIGS_def
       blockLabelOf_def demoClock_def)
section \<open>Retrying the failed calls of a batch\<close>

declare retryLoop.simps [simp del]

lemma aggregate3_cases:
  "aggregate3 r cs b n = (Inl m, n') \<Longrightarrow> n' = Suc n"
  "aggregate3 r cs b n = (Inr rs, n') \<Longrightarrow> n' = Suc n \<and> length rs = length cs"
  by (auto simp: aggregate3_def split: option.splits)

lemma batchCall_Inr:
  assumes "batchCall r cs b n = (Inr rs, n')"
  shows "n' = Suc n" "length rs = length cs" "i < length cs \<Longrightarrow> call (rs ! i) = cs ! i"
  using assms
  by (auto simp: batchCall_def split: prod.splits sum.splits dest: aggregate3_cases)

lemma batchCall_total:
  "aggregate3_throws r n (blockOptions b) cs = None \<Longrightarrow> \<exists>rs. batchCall r cs b n = (Inr rs, Suc n)"
  by (simp add: batchCall_def aggregate3_def)

lemma failedCalls_indices:
  "map (\<lambda>(result, index, c). index) (failedCalls results cs) = failedIndices results"
  by (simp add: failedCalls_def failedIndices_def filter_map comp_def case_prod_unfold)

lemma failedCalls_calls:
  "map (\<lambda>(result, index, c). c) (failedCalls results cs) = map (\<lambda>i. cs ! i) (failedIndices results)"
  by (simp add: failedCalls_def failedIndices_def filter_map comp_def case_prod_unfold)

lemma failedCalls_empty: "failedCalls results cs = [] \<longleftrightarrow> failedIndices results = []"
  using failedCalls_indices[of results cs] by (metis map_is_Nil_conv)

lemma writeBack_length: "length (writeBack fc retry k results) = length results"
  by (induction fc retry k results rule: writeBack.induct) auto

lemma writeBack_other:
  "i \<notin> set (map (\<lambda>(result, index, c). index) fc) \<Longrightarrow> writeBack fc retry k results ! i = results ! i"
  by (induction fc retry k results rule: writeBack.induct) auto

lemma writeBack_hit:
  "distinct (map (\<lambda>(result, index, c). index) fc) \<Longrightarrow> j < length fc \<Longrightarrow>
   (\<lambda>(result, index, c). index) (fc ! j) < length results \<Longrightarrow>
   writeBack fc retry k results ! ((\<lambda>(result, index, c). index) (fc ! j)) = retry ! (k + j)"
proof (induction fc retry k results arbitrary: j rule: writeBack.induct)
  case (1 retry k results)
  then show ?case by simp
next
  case (2 result index c rest retry k results)
  show ?case
  proof (cases j)
    case 0
    have "index \<notin> set (map (\<lambda>(result, index, c). index) rest)" using 2(2) by simp
    then have "writeBack rest retry (k + 1) (results[index := retry ! k]) ! index = (results[index := retry ! k]) ! index"
      by (rule writeBack_other)
    then show ?thesis using 0 2(4) by simp
  next
    case (Suc j')
    have "writeBack rest retry (k + 1) (results[index := retry ! k]) ! ((\<lambda>(result, index, c). index) (rest ! j')) = retry ! (k + 1 + j')"
      using 2(2,3,4) Suc by (intro 2(1)) auto
    then show ?thesis using Suc by simp
  qed
qed

lemma filter_upt_rank:
  "P i \<Longrightarrow> i < n \<Longrightarrow> filter P [0..<n] ! length (filter P [0..<i]) = i \<and> length (filter P [0..<i]) < length (filter P [0..<n])"
proof (induction n)
  case 0
  then show ?case by simp
next
  case (Suc n)
  show ?case
  proof (cases "i = n")
    case True
    then show ?thesis using Suc(2) by (simp add: nth_append)
  next
    case False
    then have "i < n" using Suc(3) by simp
    from Suc(1)[OF Suc(2) this] show ?thesis by (auto simp: nth_append)
  qed
qed

lemma writeBack_mergeRetry:
  "writeBack (failedCalls results cs) retry 0 results = mergeRetry results retry"
proof (rule nth_equalityI)
  show "length (writeBack (failedCalls results cs) retry 0 results) = length (mergeRetry results retry)"
    by (simp add: writeBack_length mergeRetry_def)
next
  fix i assume "i < length (writeBack (failedCalls results cs) retry 0 results)"
  then have i: "i < length results" by (simp add: writeBack_length)
  let ?P = "\<lambda>i. \<not> success (results ! i)"
  show "writeBack (failedCalls results cs) retry 0 results ! i = mergeRetry results retry ! i"
  proof (cases "success (results ! i)")
    case True
    then have "i \<notin> set (map (\<lambda>(result, index, c). index) (failedCalls results cs))"
      by (simp add: failedCalls_indices failedIndices_def)
    then show ?thesis using True i by (simp add: writeBack_other mergeRetry_def)
  next
    case False
    let ?j = "rank results i"
    from filter_upt_rank[of ?P i "length results"] False i
    have fi: "failedIndices results ! ?j = i" and jl: "?j < length (failedIndices results)"
      by (simp_all add: failedIndices_def rank_def)
    have len: "length (failedCalls results cs) = length (failedIndices results)"
      using failedCalls_indices[of results cs] by (metis length_map)
    have idx: "(\<lambda>(result, index, c). index) (failedCalls results cs ! ?j) = i"
      using fi jl len failedCalls_indices[of results cs] by (metis nth_map)
    have d: "distinct (map (\<lambda>(result, index, c). index) (failedCalls results cs))"
      by (simp add: failedCalls_indices failedIndices_def)
    from writeBack_hit[OF d, of ?j results retry 0] jl len idx i
    have "writeBack (failedCalls results cs) retry 0 results ! i = retry ! ?j" by simp
    then show ?thesis using False i by (simp add: mergeRetry_def)
  qed
qed

lemma mergeRetry_length: "length (mergeRetry results retry) = length results"
  by (simp add: mergeRetry_def)

lemma retryLoop_rounds:
  "retryLoop r cs m b c results n = retryRounds r cs b (m - c) results n"
proof (induction r cs m b c results n rule: retryLoop.induct)
  case (1 r cs m b c results n)
  show ?case
  proof (cases "c < m")
    case False
    then show ?thesis by (simp add: retryLoop.simps)
  next
    case True
    then obtain k where k: "m - c = Suc k" and k': "m - (c + 1) = k" by (metis Suc_diff_Suc Suc_eq_plus1 diff_diff_left)
    show ?thesis
    proof (cases "failedCalls results cs = []")
      case T: True
      then show ?thesis using True k by (simp add: retryLoop.simps failedCalls_empty)
    next
      case F: False
      show ?thesis
      proof (cases "batchCall r (map (\<lambda>(result, index, c). c) (failedCalls results cs)) b n")
        case (Pair res n')
        show ?thesis
        proof (cases res)
          case (Inl msg)
          then show ?thesis using True F Pair k
            by (simp add: retryLoop.simps[of r cs m b c] failedCalls_empty failedCalls_calls)
        next
          case (Inr retry)
          from 1[OF True F Pair[symmetric] Inr]
          show ?thesis using True F Pair Inr k k'
            by (simp add: retryLoop.simps[of r cs m b c] failedCalls_empty failedCalls_calls writeBack_mergeRetry)
        qed
      qed
    qed
  qed
qed

lemma rank_less: "i < length results \<Longrightarrow> \<not> success (results ! i) \<Longrightarrow>
   rank results i < length (failedIndices results) \<and> failedIndices results ! rank results i = i"
  using filter_upt_rank[of "\<lambda>i. \<not> success (results ! i)" i "length results"]
  by (simp add: failedIndices_def rank_def)

lemma mergeRetry_nth:
  "i < length results \<Longrightarrow>
   mergeRetry results retry ! i = (if success (results ! i) then results ! i else retry ! rank results i)"
  by (simp add: mergeRetry_def)

lemma retryRounds_props:
  "retryRounds r cs b k results n = (Inr final, n') \<Longrightarrow> length results = length cs \<Longrightarrow>
   (\<forall>i < length cs. call (results ! i) = cs ! i) \<Longrightarrow>
   length final = length cs \<and> (\<forall>i < length cs. call (final ! i) = cs ! i)
   \<and> (\<forall>i < length cs. success (results ! i) \<longrightarrow> final ! i = results ! i)
   \<and> n \<le> n' \<and> n' \<le> n + k"
proof (induction r cs b k results n rule: retryRounds.induct)
  case (1 r cs b results n)
  then show ?case by simp
next
  case (2 r cs b k results n)
  show ?case
  proof (cases "failedIndices results = []")
    case True
    then show ?thesis using 2(2,3,4) by simp
  next
    case False
    obtain res n1 where bc: "batchCall r (map (\<lambda>i. cs ! i) (failedIndices results)) b n = (res, n1)"
      by (cases "batchCall r (map (\<lambda>i. cs ! i) (failedIndices results)) b n")
    show ?thesis
    proof (cases res)
      case (Inl m)
      then show ?thesis using 2(2) False bc by simp
    next
      case (Inr retry)
      have bc': "batchCall r (map (\<lambda>i. cs ! i) (failedIndices results)) b n = (Inr retry, n1)"
        using bc Inr by simp
      note B = batchCall_Inr[OF bc']
      have rr: "retryRounds r cs b k (mergeRetry results retry) n1 = (Inr final, n')"
        using 2(2) False bc' by simp
      have len: "length (mergeRetry results retry) = length cs" using 2(3) by (simp add: mergeRetry_length)
      have calls: "\<forall>i<length cs. call (mergeRetry results retry ! i) = cs ! i"
      proof (intro allI impI)
        fix i assume i: "i < length cs"
        show "call (mergeRetry results retry ! i) = cs ! i"
        proof (cases "success (results ! i)")
          case True
          then show ?thesis using i 2(3,4) by (simp add: mergeRetry_nth)
        next
          case F: False
          from rank_less[of i results] i 2(3) F
          have rl: "rank results i < length (failedIndices results)" and ri: "failedIndices results ! rank results i = i"
            by simp_all
          have "call (retry ! rank results i) = map (\<lambda>i. cs ! i) (failedIndices results) ! rank results i"
            using B(3)[of "rank results i"] rl by simp
          then show ?thesis using F i 2(3) rl ri by (simp add: mergeRetry_nth)
        qed
      qed
      from 2(1)[OF False bc[symmetric] Inr rr len calls]
      have IH: "length final = length cs" "\<forall>i<length cs. call (final ! i) = cs ! i"
        "\<forall>i<length cs. success (mergeRetry results retry ! i) \<longrightarrow> final ! i = mergeRetry results retry ! i"
        "n1 \<le> n'" "n' \<le> n1 + k" by simp_all
      have keep: "\<forall>i<length cs. success (results ! i) \<longrightarrow> final ! i = results ! i"
      proof (intro allI impI)
        fix i assume i: "i < length cs" and s: "success (results ! i)"
        then have "mergeRetry results retry ! i = results ! i" using 2(3) by (simp add: mergeRetry_nth)
        then show "final ! i = results ! i" using IH(3) i s by simp
      qed
      show ?thesis using IH keep B(1) by simp
    qed
  qed
qed

lemma retryRounds_total:
  "(\<forall>k cs'. aggregate3_throws r k (blockOptions b) cs' = None) \<Longrightarrow>
   \<exists>final n'. retryRounds r cs b k results n = (Inr final, n')"
proof (induction r cs b k results n rule: retryRounds.induct)
  case (1 r cs b results n)
  then show ?case by simp
next
  case (2 r cs b k results n)
  show ?case
  proof (cases "failedIndices results = []")
    case True
    then show ?thesis by simp
  next
    case False
    from batchCall_total[of r n b "map (\<lambda>i. cs ! i) (failedIndices results)"] 2(2)
    obtain retry where bc: "batchCall r (map (\<lambda>i. cs ! i) (failedIndices results)) b n = (Inr retry, Suc n)"
      by auto
    from 2(1)[OF False bc[symmetric] refl 2(2)] show ?thesis using False bc by simp
  qed
qed

text \<open>
  Claim C3. \<open>batchCallWithRetry\<close> runs the full batch once and then, up to \<open>maxRetries\<close>
  times, submits again only the calls whose result is not successful, found by their
  original indices, and overwrites exactly those positions with the answers
  (\<open>retryRounds\<close>). When it returns, the list has the length and the order of the input
  calls, a position that was successful after the first batch still holds that result,
  and between 1 and \<open>1 + maxRetries\<close> aggregate requests were issued. A call that keeps
  failing keeps a failed result at its index: as long as no aggregate request itself
  throws, the operation returns a list and never raises.
\<close>

theorem batchCallWithRetry_retries_failed_only:
  "batchCallWithRetry r cs maxRetries b n =
     (case batchCall r cs b n of
        (Inl message, n') \<Rightarrow> (Inl message, n')
      | (Inr first, n') \<Rightarrow> retryRounds r cs b maxRetries first n')
   \<and> (\<forall>first final n'.
          batchCall r cs b n = (Inr first, Suc n) \<and>
          batchCallWithRetry r cs maxRetries b n = (Inr final, n') \<longrightarrow>
            length final = length cs
            \<and> (\<forall>i < length cs. call (final ! i) = cs ! i \<and> (success (first ! i) \<longrightarrow> final ! i = first ! i))
            \<and> Suc n \<le> n' \<and> n' \<le> Suc n + maxRetries)
   \<and> ((\<forall>k cs'. aggregate3_throws r k (blockOptions b) cs' = None) \<longrightarrow>
          (\<exists>final n'. batchCallWithRetry r cs maxRetries b n = (Inr final, n')))"
proof (intro conjI allI impI)
  show eq: "batchCallWithRetry r cs maxRetries b n =
     (case batchCall r cs b n of
        (Inl message, n') \<Rightarrow> (Inl message, n')
      | (Inr first, n') \<Rightarrow> retryRounds r cs b maxRetries first n')"
    by (simp add: batchCallWithRetry_def retryLoop_rounds split: prod.splits sum.splits)
  {
    fix first final n'
    assume h: "batchCall r cs b n = (Inr first, Suc n) \<and> batchCallWithRetry r cs maxRetries b n = (Inr final, n')"
    from h have bc: "batchCall r cs b n = (Inr first, Suc n)" by simp
    from h have "batchCallWithRetry r cs maxRetries b n = (Inr final, n')" by simp
    then have rr: "retryRounds r cs b maxRetries first (Suc n) = (Inr final, n')" unfolding eq bc by simp
    note B = batchCall_Inr[OF bc]
    have P: "length final = length cs \<and> (\<forall>i < length cs. call (final ! i) = cs ! i)
       \<and> (\<forall>i < length cs. success (first ! i) \<longrightarrow> final ! i = first ! i)
       \<and> Suc n \<le> n' \<and> n' \<le> Suc n + maxRetries"
      using retryRounds_props[OF rr B(2)] B(3) by simp
    show "length final = length cs" using P by simp
    show "Suc n \<le> n'" using P by simp
    show "n' \<le> Suc n + maxRetries" using P by simp
    fix i assume "i < length cs"
    then show "call (final ! i) = cs ! i" using P by simp
    assume "success (first ! i)"
    then show "final ! i = first ! i" using P \<open>i < length cs\<close> by simp
  }
  assume nt: "\<forall>k cs'. aggregate3_throws r k (blockOptions b) cs' = None"
  then obtain first where bc: "batchCall r cs b n = (Inr first, Suc n)"
    using batchCall_total[of r n b cs] by auto
  from retryRounds_total[OF nt, of cs maxRetries first "Suc n"]
  show "\<exists>final n'. batchCallWithRetry r cs maxRetries b n = (Inr final, n')"
    using eq bc by simp
qed

lemma upt3: "[0..<3] = [0,1,2]" by (simp add: upt_rec)

theorem batchCallWithRetry_retries_failed_only_witness:
  "(\<forall>k cs'. aggregate3_throws flakyRemote k (blockOptions None) cs' = None)
   \<and> batchCall flakyRemote exampleCalls None 0
       = (Inr [\<lparr>success = True, data = ''0x07'', call = createContractCall ''0xA1'' Underlying\<rparr>,
               \<lparr>success = False, data = [], call = createContractCall ''0xA1'' Decimals\<rparr>,
               \<lparr>success = True, data = ''0x07'', call = createContractCall ''0xA1'' Symbol\<rparr>], Suc 0)
   \<and> batchCallWithRetry flakyRemote exampleCalls 1 None 0
       = (Inr [\<lparr>success = True, data = ''0x07'', call = createContractCall ''0xA1'' Underlying\<rparr>,
               \<lparr>success = True, data = ''0x07'', call = createContractCall ''0xA1'' Decimals\<rparr>,
               \<lparr>success = True, data = ''0x07'', call = createContractCall ''0xA1'' Symbol\<rparr>], 2)"
proof -
  have nt: "\<forall>k cs'. aggregate3_throws flakyRemote k (blockOptions None) cs' = None"
    by (simp add: flakyRemote_def)
  have first: "batchCall flakyRemote exampleCalls None 0
       = (Inr [\<lparr>success = True, data = ''0x07'', call = createContractCall ''0xA1'' Underlying\<rparr>,
               \<lparr>success = False, data = [], call = createContractCall ''0xA1'' Decimals\<rparr>,
               \<lparr>success = True, data = ''0x07'', call = createContractCall ''0xA1'' Symbol\<rparr>], Suc 0)"
    by (simp add: batchCall_def aggregate3_def flakyRemote_def exampleCalls_def upt3)
  have fi: "failedIndices [\<lparr>success = True, data = ''0x07'', call = createContractCall ''0xA1'' Underlying\<rparr>,
               \<lparr>success = False, data = [], call = createContractCall ''0xA1'' Decimals\<rparr>,
               \<lparr>success = True, data = ''0x07'', call = createContractCall ''0xA1'' Symbol\<rparr>] = [1]"
    by (simp add: failedIndices_def upt3)
  have retry: "batchCall flakyRemote [createContractCall ''0xA1'' Decimals] None (Suc 0)
       = (Inr [\<lparr>success = True, data = ''0x07'', call = createContractCall ''0xA1'' Decimals\<rparr>], 2)"
    by (simp add: batchCall_def aggregate3_def flakyRemote_def)
  have rounds: "retryRounds flakyRemote exampleCalls None 1
          [\<lparr>success = True, data = ''0x07'', call = createContractCall ''0xA1'' Underlying\<rparr>,
               \<lparr>success = False, data = [], call = createContractCall ''0xA1'' Decimals\<rparr>,
               \<lparr>success = True, data = ''0x07'', call = createContractCall ''0xA1'' Symbol\<rparr>] (Suc 0)
       = (Inr [\<lparr>success = True, data = ''0x07'', call = createContractCall ''0xA1'' Underlying\<rparr>,
               \<lparr>success = True, data = ''0x07'', call = createContractCall ''0xA1'' Decimals\<rparr>,
               \<lparr>success = True, data = ''0x07'', call = createContractCall ''0xA1'' Symbol\<rparr>], 2)"
    unfolding One_nat_def
    by (simp add: fi retry[unfolded exampleCalls_def] exampleCalls_def mergeRetry_def rank_def upt3 upt_rec[of 0 1] upt_rec[of 0 2]  upt_rec[of 1 2])
  from batchCallWithRetry_retries_failed_only[where r=flakyRemote and cs=exampleCalls and maxRetries=1 and b=None and n=0]
  have "batchCallWithRetry flakyRemote exampleCalls 1 None 0 =
     (case batchCall flakyRemote exampleCalls None 0 of
        (Inl message, n') \<Rightarrow> (Inl message, n')
      | (Inr first, n') \<Rightarrow> retryRounds flakyRemote exampleCalls None 1 first n')"
    by (rule conjunct1)
  then show ?thesis using nt first rounds by simp
qed

section \<open>Stage 2 keeps one entry per LP token\<close>

declare underlyingChunks.simps [simp del]
declare positionChunks.simps [simp del]

lemma batchCallWithRetry_rounds:
  "batchCallWithRetry r cs m b n =
     (case batchCall r cs b n of
        (Inl message, n') \<Rightarrow> (Inl message, n')
      | (Inr first, n') \<Rightarrow> retryRounds r cs b m first n')"
  by (simp add: batchCallWithRetry_def retryLoop_rounds split: prod.splits sum.splits)

lemma batchCallWithRetry_length:
  assumes "batchCallWithRetry r cs m b n = (Inr final, n')"
  shows "length final = length cs"
proof -
  obtain res n1 where bc: "batchCall r cs b n = (res, n1)" by (cases "batchCall r cs b n")
  show ?thesis
  proof (cases res)
    case (Inl msg)
    then show ?thesis using assms bc by (simp add: batchCallWithRetry_rounds)
  next
    case (Inr first)
    then have bc': "batchCall r cs b n = (Inr first, n1)" using bc by simp
    have rr: "retryRounds r cs b m first n1 = (Inr final, n')"
      using assms bc' by (simp add: batchCallWithRetry_rounds)
    from retryRounds_props[OF rr batchCall_Inr(2)[OF bc']] batchCall_Inr(3)[OF bc']
    show ?thesis by simp
  qed
qed

lemma resolveTriplet_in_range:
  "j * 3 + 2 < length results \<Longrightarrow>
   resolveTriplet E lp (nth_opt results (j * 3)) (nth_opt results (j * 3 + 1)) (nth_opt results (j * 3 + 2))
     = Some (tripletEntry E lp results j)"
  by (simp add: resolveTriplet_def nth_opt_def tripletEntry_def)

lemma tripletLoop_in_range:
  "(j + length batch) * 3 \<le> length results \<Longrightarrow>
   tripletLoop E batch results j
     = (map (\<lambda>k. tripletEntry E (batch ! k) results (j + k)) [0..<length batch], False)"
proof (induction batch arbitrary: j)
  case Nil
  then show ?case by simp
next
  case (Cons lp rest)
  have r: "j * 3 + 2 < length results" using Cons(2) by simp
  have "(j + 1 + length rest) * 3 \<le> length results" using Cons(2) by simp
  from Cons(1)[OF this]
  have IH: "tripletLoop E rest results (j + 1)
     = (map (\<lambda>k. tripletEntry E (rest ! k) results (j + 1 + k)) [0..<length rest], False)" .
  have m: "map (\<lambda>k. tripletEntry E ((lp # rest) ! k) results (j + k)) [0..<length (lp # rest)]
     = tripletEntry E lp results j # map (\<lambda>k. tripletEntry E (rest ! k) results (j + 1 + k)) [0..<length rest]"
    by (simp only: length_Cons map_upt_Suc) simp
  show ?case unfolding m by (simp only: tripletLoop.simps resolveTriplet_in_range[OF r] IH option.case prod.case)
qed

lemma decodeTriplet_lp: "lpTokenAddress (decodeTriplet E lp u d s) = lp"
  by (simp add: decodeTriplet_def fallbackToken_def split: sum.splits)

lemma tripletEntry_lp: "lpTokenAddress (tripletEntry E lp results j) = lp"
  by (simp add: tripletEntry_def decodeTriplet_lp fallbackToken_def)

lemma underlyingFallback_lp:
  "map lpTokenAddress (fst (underlyingFallback r b batch n)) = batch
   \<and> snd (underlyingFallback r b batch n) = n + 3 * length batch"
proof (induction batch arbitrary: n)
  case Nil
  then show ?case by simp
next
  case (Cons lp rest)
  obtain ud n1 where g: "getUnderlyingToken r lp b n = (ud, n1)" by (cases "getUnderlyingToken r lp b n")
  then have n1: "n1 = n + 3" by (auto simp: getUnderlyingToken_def split: sum.splits)
  obtain es n2 where f: "underlyingFallback r b rest n1 = (es, n2)" by (cases "underlyingFallback r b rest n1")
  from Cons[of n1] f have "map lpTokenAddress es = rest" "n2 = n1 + 3 * length rest" by simp_all
  then show ?case using g f n1 by (simp add: fallbackToken_def split: option.splits)
qed

lemma tripletCalls_length: "length (tripletCalls batch) = 3 * length batch"
  by (induction batch) (simp_all add: tripletCalls_def)

lemma underlyingChunk_success:
  assumes "batchCallWithRetry r (tripletCalls batch) 1 b n = (Inr results, n')"
  shows "underlyingChunk E r b batch n
           = (map (\<lambda>k. tripletEntry E (batch ! k) results k) [0..<length batch], n')"
proof -
  have "length results = 3 * length batch"
    using batchCallWithRetry_length[OF assms] by (simp add: tripletCalls_length)
  then have "(0 + length batch) * 3 \<le> length results" by simp
  from tripletLoop_in_range[OF this] show ?thesis using assms by (simp add: underlyingChunk_def)
qed

lemma underlyingChunk_lp:
  "map lpTokenAddress (fst (underlyingChunk E r b batch n)) = batch"
proof -
  obtain res n' where bc: "batchCallWithRetry r (tripletCalls batch) 1 b n = (res, n')"
    by (cases "batchCallWithRetry r (tripletCalls batch) 1 b n")
  show ?thesis
  proof (cases res)
    case (Inl msg)
    then show ?thesis using bc underlyingFallback_lp[of r b batch n'] by (simp add: underlyingChunk_def)
  next
    case (Inr results)
    then have "batchCallWithRetry r (tripletCalls batch) 1 b n = (Inr results, n')" using bc by simp
    from underlyingChunk_success[OF this]
    show ?thesis by (simp add: comp_def tripletEntry_lp map_nth)
  qed
qed

lemma underlyingChunks_lp:
  "map lpTokenAddress (fst (underlyingChunks E r b lps i acc n)) = map lpTokenAddress acc @ drop i lps"
proof (induction E r b lps i acc n rule: underlyingChunks.induct)
  case (1 E r b lps i acc n)
  show ?case
  proof (cases "i < length lps")
    case False
    then show ?thesis by (simp add: underlyingChunks.simps)
  next
    case True
    obtain es n' where c: "underlyingChunk E r b (take 10 (drop i lps)) n = (es, n')"
      by (cases "underlyingChunk E r b (take 10 (drop i lps)) n")
    have es: "map lpTokenAddress es = take 10 (drop i lps)"
      using underlyingChunk_lp[of E r b "take 10 (drop i lps)" n] c by simp
    have d: "take 10 (drop i lps) @ drop (i + 10) lps = drop i lps"
      by (metis add.commute append_take_drop_id drop_drop)
    from 1[OF True c[symmetric]]
    show ?thesis using True c es d by (simp add: underlyingChunks.simps[of E r b lps i])
  qed
qed

lemma batchGetUnderlyingTokens_lp:
  "map lpTokenAddress (fst (batchGetUnderlyingTokens E r lps b n)) = lps"
  by (simp add: batchGetUnderlyingTokens_def underlyingChunks_lp)

section \<open>Decimal text of a BigInt\<close>

declare natToString.simps [simp del]

lemma digitVal_digitChar: "d < 10 \<Longrightarrow> digitVal (digitChar d) = Some d"
  by (simp add: digitVal_def digitChar_def)

lemma digitChar_not_minus: "d < 10 \<Longrightarrow> digitChar d \<noteq> CHR ''-''"
proof
  assume d: "d < 10" and e: "digitChar d = CHR ''-''"
  then have "(of_char (digitChar d) :: nat) = of_char (CHR ''-'')" by simp
  then show False using d by (simp add: digitChar_def)
qed

lemma parseDigits_append:
  "parseDigits (xs @ ys) acc = (case parseDigits xs acc of None \<Rightarrow> None | Some a \<Rightarrow> parseDigits ys a)"
  by (induction xs arbitrary: acc) (auto split: option.splits)

lemma parseDigits_natToString: "parseDigits (natToString n) 0 = Some n"
proof (induction n rule: natToString.induct)
  case (1 n)
  show ?case
  proof (cases "n < 10")
    case True
    then show ?thesis by (simp add: natToString.simps[of n] digitVal_digitChar)
  next
    case False
    have "n mod 10 < 10" by simp
    then have dv: "digitVal (digitChar (n mod 10)) = Some (n mod 10)" by (rule digitVal_digitChar)
    from 1[OF False] show ?thesis using False dv
      by (simp add: natToString.simps[of n] parseDigits_append)
  qed
qed

lemma natToString_hd: "\<exists>d cs. d < 10 \<and> natToString n = digitChar d # cs"
proof (induction n rule: natToString.induct)
  case (1 n)
  show ?case
  proof (cases "n < 10")
    case True
    then show ?thesis by (auto simp add: natToString.simps[of n])
  next
    case False
    from 1[OF False] obtain d cs where "d < 10" "natToString (n div 10) = digitChar d # cs" by blast
    then show ?thesis using False by (auto simp add: natToString.simps[of n])
  qed
qed

lemma BigInt_toString: "BigInt (bigint_toString v) = Some v"
proof (cases "v < 0")
  case True
  from natToString_hd[of "nat (- v)"] obtain d cs where "natToString (nat (- v)) = digitChar d # cs" by blast
  then have ne: "natToString (nat (- v)) \<noteq> []" by simp
  show ?thesis using True ne by (simp add: BigInt_def bigint_toString_def parseDigits_natToString)
next
  case False
  from natToString_hd[of "nat v"] obtain d cs where d: "d < 10" and e: "natToString (nat v) = digitChar d # cs" by blast
  have "parseDigits (digitChar d # cs) 0 = Some (nat v)" using parseDigits_natToString[of "nat v"] e by simp
  then show ?thesis using False e digitChar_not_minus[OF d] by (simp add: BigInt_def bigint_toString_def)
qed

lemma digitChar_simps:
  "digitChar 0 = CHR ''0''" "digitChar 1 = CHR ''1''" "digitChar 2 = CHR ''2''"
  "digitChar 3 = CHR ''3''" "digitChar 4 = CHR ''4''" "digitChar 5 = CHR ''5''"
  "digitChar 6 = CHR ''6''" "digitChar 7 = CHR ''7''" "digitChar 8 = CHR ''8''"
  "digitChar 9 = CHR ''9''" "digitChar (Suc 0) = CHR ''1''"
  by code_simp+

lemma bigint_toString_zero: "bigint_toString 0 = ''0''"
  by (simp add: bigint_toString_def natToString.simps[of 0] digitChar_simps)

lemma bigint_toString_eq_zero: "bigint_toString v = ''0'' \<longleftrightarrow> v = 0"
proof
  assume "bigint_toString v = ''0''"
  then have "BigInt (bigint_toString v) = BigInt (bigint_toString 0)" by (simp add: bigint_toString_zero)
  then show "v = 0" by (simp add: BigInt_toString)
qed (simp add: bigint_toString_zero)

section \<open>Stage 3 keeps one result per token\<close>

lemma positionLoop_in_range:
  "j + length batch \<le> length results \<Longrightarrow>
   positionLoop E batch results j
     = (map (\<lambda>k. decodePosition E (batch ! k) (results ! (j + k))) [0..<length batch], False)"
proof (induction batch arbitrary: j)
  case Nil
  then show ?case by simp
next
  case (Cons t rest)
  have r: "nth_opt results j = Some (results ! j)" using Cons(2) by (simp add: nth_opt_def)
  have "(j + 1) + length rest \<le> length results" using Cons(2) by simp
  from Cons(1)[OF this]
  have IH: "positionLoop E rest results (j + 1)
     = (map (\<lambda>k. decodePosition E (rest ! k) (results ! (j + 1 + k))) [0..<length rest], False)" .
  have m: "map (\<lambda>k. decodePosition E ((t # rest) ! k) (results ! (j + k))) [0..<length (t # rest)]
     = decodePosition E t (results ! j) # map (\<lambda>k. decodePosition E (rest ! k) (results ! (j + 1 + k))) [0..<length rest]"
    by (simp only: length_Cons map_upt_Suc) simp
  show ?case unfolding m by (simp only: positionLoop.simps r IH option.case prod.case)
qed

lemma quantity_toString: "quantity \<lparr>tokenAddress_r = t, position_r = bigint_toString q, success_r = s, error_r = e\<rparr> = q"
  by (simp add: quantity_def BigInt_toString)

lemma canonical_toString: "canonical \<lparr>tokenAddress_r = t, position_r = bigint_toString q, success_r = s, error_r = e\<rparr>"
  by (simp add: canonical_def quantity_toString)

lemma canonical_zero: "canonical \<lparr>tokenAddress_r = t, position_r = ''0'', success_r = s, error_r = e\<rparr>"
  using canonical_toString[of t 0 s e] by (simp add: bigint_toString_zero)

lemma decodePosition_props:
  "tokenAddress_r (decodePosition E t res) = t \<and> canonical (decodePosition E t res)"
  by (simp add: decodePosition_def canonical_toString canonical_zero split: sum.splits)

lemma positionsFallback_props:
  "map tokenAddress_r (fst (positionsFallback r a b batch n)) = batch
   \<and> list_all canonical (fst (positionsFallback r a b batch n))
   \<and> list_all success_r (fst (positionsFallback r a b batch n))
   \<and> snd (positionsFallback r a b batch n) = n + length batch"
proof (induction batch arbitrary: n)
  case Nil
  then show ?case by simp
next
  case (Cons t rest)
  obtain p n1 where g: "getPosition r a t b n = (p, n1)" by (cases "getPosition r a t b n")
  then have n1: "n1 = Suc n" by (auto simp: getPosition_def split: sum.splits)
  obtain es n2 where f: "positionsFallback r a b rest n1 = (es, n2)" by (cases "positionsFallback r a b rest n1")
  from Cons[of n1] f have "map tokenAddress_r es = rest" "list_all canonical es" "list_all success_r es" "n2 = n1 + length rest" by simp_all
  then show ?case using g f n1 by (simp add: canonical_toString)
qed

lemma positionCalls_length: "length (positionCalls v a batch) = length batch"
  by (simp add: positionCalls_def)

lemma positionChunk_success:
  assumes "batchCallWithRetry r (positionCalls v a batch) 1 b n = (Inr results, n')"
  shows "positionChunk E r v a b batch n
           = (map (\<lambda>k. decodePosition E (batch ! k) (results ! k)) [0..<length batch], n')"
proof -
  have "length results = length batch"
    using batchCallWithRetry_length[OF assms] by (simp add: positionCalls_length)
  then have "0 + length batch \<le> length results" by simp
  from positionLoop_in_range[OF this] show ?thesis using assms by (simp add: positionChunk_def)
qed

lemma positionChunk_props:
  "map tokenAddress_r (fst (positionChunk E r v a b batch n)) = batch
   \<and> list_all canonical (fst (positionChunk E r v a b batch n))"
proof -
  obtain res n' where bc: "batchCallWithRetry r (positionCalls v a batch) 1 b n = (res, n')"
    by (cases "batchCallWithRetry r (positionCalls v a batch) 1 b n")
  show ?thesis
  proof (cases res)
    case (Inl msg)
    then show ?thesis using bc positionsFallback_props[of r a b batch n'] by (simp add: positionChunk_def)
  next
    case (Inr results)
    then have "batchCallWithRetry r (positionCalls v a batch) 1 b n = (Inr results, n')" using bc by simp
    from positionChunk_success[OF this]
    show ?thesis by (simp add: comp_def decodePosition_props map_nth list_all_iff)
  qed
qed

lemma positionChunks_props:
  "map tokenAddress_r (fst (positionChunks E r v a b ts i acc n)) = map tokenAddress_r acc @ drop i ts
   \<and> (list_all canonical acc \<longrightarrow> list_all canonical (fst (positionChunks E r v a b ts i acc n)))"
proof (induction E r v a b ts i acc n rule: positionChunks.induct)
  case (1 E r v a b ts i acc n)
  show ?case
  proof (cases "i < length ts")
    case False
    then show ?thesis by (simp add: positionChunks.simps)
  next
    case True
    obtain es n' where c: "positionChunk E r v a b (take 20 (drop i ts)) n = (es, n')"
      by (cases "positionChunk E r v a b (take 20 (drop i ts)) n")
    have es: "map tokenAddress_r es = take 20 (drop i ts)" "list_all canonical es"
      using positionChunk_props[of E r v a b "take 20 (drop i ts)" n] c by simp_all
    have d: "take 20 (drop i ts) @ drop (i + 20) ts = drop i ts"
      by (metis add.commute append_take_drop_id drop_drop)
    from 1[OF True c[symmetric]]
    show ?thesis using True c es d by (simp add: positionChunks.simps[of E r v a b ts i])
  qed
qed

lemma batchGetPositions_props:
  "map tokenAddress_r (fst (batchGetPositions E r v a ts b n)) = ts
   \<and> list_all canonical (fst (batchGetPositions E r v a ts b n))"
  using positionChunks_props[of E r v a b ts 0 "[]" n] by (simp add: batchGetPositions_def)

section \<open>The join and the report of a run\<close>

lemma canonical_test:
  "canonical pr \<Longrightarrow> (success_r pr \<and> position_r pr \<noteq> ''0'') = hasPosition pr"
  by (metis bigint_toString_eq_zero canonical_def hasPosition_def)

lemma canonical_BigInt: "canonical pr \<Longrightarrow> BigInt (position_r pr) = Some (quantity pr)"
  by (metis BigInt_toString canonical_def)

lemma filter_upt_Suc:
  "filter P [0..<Suc n] = (if P 0 then [0] else []) @ map Suc (filter (\<lambda>k. P (Suc k)) [0..<n])"
proof -
  have "[0..<Suc n] = 0 # map Suc [0..<n]" by (simp add: upt_conv_Cons map_Suc_upt del: upt_Suc)
  then show ?thesis by (simp add: filter_map comp_def del: upt_Suc)
qed

lemma joinLoop_entries:
  "joinLoop E td prs i = Inr entries \<Longrightarrow> i + length td \<le> length prs \<Longrightarrow> list_all canonical prs \<Longrightarrow>
   entries = map (\<lambda>k. entryAt E (td ! k) (prs ! (i + k)))
               (filter (\<lambda>k. hasPosition (prs ! (i + k))) [0..<length td])"
proof (induction td arbitrary: i entries)
  case Nil
  then show ?case by simp
next
  case (Cons t ts)
  have ir: "i < length prs" using Cons(3) by simp
  then have no: "nth_opt prs i = Some (prs ! i)" by (simp add: nth_opt_def)
  have can: "canonical (prs ! i)" using Cons(4) ir by (simp add: list_all_length)
  have le: "(i + 1) + length ts \<le> length prs" using Cons(3) by simp
  let ?rest = "map (\<lambda>k. entryAt E (ts ! k) (prs ! (i + 1 + k)))
               (filter (\<lambda>k. hasPosition (prs ! (i + 1 + k))) [0..<length ts])"
  have shape: "map (\<lambda>k. entryAt E ((t # ts) ! k) (prs ! (i + k)))
               (filter (\<lambda>k. hasPosition (prs ! (i + k))) [0..<length (t # ts)])
      = (if hasPosition (prs ! i) then [entryAt E t (prs ! i)] else []) @ ?rest"
    by (simp only: length_Cons filter_upt_Suc) (simp add: comp_def)
  show ?case
  proof (cases "hasPosition (prs ! i)")
    case False
    then have tst: "(success_r (prs ! i) \<and> position_r (prs ! i) \<noteq> ''0'') = False"
      using canonical_test[OF can] by simp
    have "joinLoop E (t # ts) prs i = joinLoop E ts prs (i + 1)"
      by (simp only: joinLoop.simps no option.case tst if_False)
    then have "joinLoop E ts prs (i + 1) = Inr entries" using Cons(2) by simp
    from Cons(1)[OF this le Cons(4)] show ?thesis unfolding shape using False by simp
  next
    case True
    then have tst: "(success_r (prs ! i) \<and> position_r (prs ! i) \<noteq> ''0'') = True" using canonical_test[OF can] by simp
    have unf: "joinLoop E (t # ts) prs i =
       (case formatUnits E (quantity (prs ! i)) (decimals t) of
                    Inl message \<Rightarrow> Inl message
                  | Inr formatted \<Rightarrow>
                      (case joinLoop E ts prs (i + 1) of
                         Inl message \<Rightarrow> Inl message
                       | Inr rest \<Rightarrow>
                           Inr (\<lparr>tokenAddress = underlyingAddress t, tokenSymbol = symbol t,
                                 lpTokenAddress_d = (if isLPToken t then Some (lpTokenAddress t) else None),
                                 position = bigint_toString (quantity (prs ! i)), positionFormatted = formatted,
                                 decimals_d = decimals t\<rparr> # rest)))"
      by (simp only: joinLoop.simps no option.case tst if_True canonical_BigInt[OF can])
    from Cons(2)[unfolded unf]
    obtain formatted rest where f: "formatUnits E (quantity (prs ! i)) (decimals t) = Inr formatted"
      and jr: "joinLoop E ts prs (i + 1) = Inr rest"
      and e: "entries = \<lparr>tokenAddress = underlyingAddress t, tokenSymbol = symbol t,
                                 lpTokenAddress_d = (if isLPToken t then Some (lpTokenAddress t) else None),
                                 position = bigint_toString (quantity (prs ! i)), positionFormatted = formatted,
                                 decimals_d = decimals t\<rparr> # rest"
      by (auto split: sum.splits)
    from Cons(1)[OF jr le Cons(4)] have "rest = ?rest" .
    then show ?thesis unfolding shape using True e f by (simp add: entryAt_def)
  qed
qed

lemma batchGetUnderlyingTokens_Nil: "batchGetUnderlyingTokens E r [] b n = ([], n)"
  by (simp add: batchGetUnderlyingTokens_def underlyingChunks.simps)

lemma batchGetPositions_Nil: "batchGetPositions E r v a [] b n = ([], n)"
  by (simp add: batchGetPositions_def positionChunks.simps)

lemma runMetadata_items:
  "map lpTokenAddress (fst (runMetadata E r tb n)) = runItems r tb n"
  by (simp add: runMetadata_def batchGetUnderlyingTokens_lp)


lemma runQuantities_canonical: "list_all canonical (runQuantities E r a c tb n)"
  by (auto simp: runQuantities_def batchGetPositions_props split: option.splits)

lemma runQuantities_length:
  "CHAIN_CONFIGS c \<noteq> None \<Longrightarrow> length (runQuantities E r a c tb n) = length (fst (runMetadata E r tb n))"
proof -
  assume "CHAIN_CONFIGS c \<noteq> None"
  then obtain name vault where "CHAIN_CONFIGS c = Some (name, vault)" by (cases "CHAIN_CONFIGS c") auto
  then have "map tokenAddress_r (runQuantities E r a c tb n) = map underlyingAddress (fst (runMetadata E r tb n))"
    by (simp add: runQuantities_def batchGetPositions_props)
  then show ?thesis by (metis length_map)
qed

lemma listPmmPositions_report:
  assumes "listPmmPositions E r clock a c tb n = (Inr rep, n')"
  shows "isAddress E a \<and> isValidChainId c \<and> CHAIN_CONFIGS c \<noteq> None
     \<and> (\<exists>n1. getAllLPTokens r tb n = (Inr (runItems r tb n), n1))
     \<and> rep = \<lparr>chainId = c, chainName = fst (the (CHAIN_CONFIGS c)), pmmAddress = a,
              targetBlock = blockLabelOf tb,
              positions = map (\<lambda>i. entryAt E (fst (runMetadata E r tb n) ! i) (runQuantities E r a c tb n ! i))
                            (keptIndices (runQuantities E r a c tb n)),
              summary = \<lparr>totalTokens = length (runItems r tb n),
                         tokensWithPositions = length (keptIndices (runQuantities E r a c tb n)),
                         fetchTime = clock 1 - clock 0\<rparr>\<rparr>"
proof -
  from assms have va: "isAddress E a" and vc: "isValidChainId c"
    by (auto simp: listPmmPositions_def split: if_splits)
  from assms va vc obtain name vault where cfg: "CHAIN_CONFIGS c = Some (name, vault)"
    by (cases "CHAIN_CONFIGS c") (auto simp: listPmmPositions_def)
  obtain res n1 where g: "getAllLPTokens r tb n = (res, n1)" by (cases "getAllLPTokens r tb n")
  from assms va vc cfg g obtain lps where res: "res = Inr lps"
    by (cases res) (auto simp: listPmmPositions_def)
  have items: "runItems r tb n = lps" and sn: "snd (getAllLPTokens r tb n) = n1"
    using g res by (simp_all add: runItems_def)
  have len: "length (runQuantities E r a c tb n) = length (fst (runMetadata E r tb n))"
    using runQuantities_length[of c] cfg by simp
  show ?thesis
  proof (cases "lps = []")
    case True
    then have md: "runMetadata E r tb n = ([], n1)"
      by (simp add: runMetadata_def items sn batchGetUnderlyingTokens_Nil)
    then have q: "runQuantities E r a c tb n = []"
      by (simp add: runQuantities_def cfg batchGetPositions_Nil)
    show ?thesis using assms va vc cfg g res True items q
      by (simp add: listPmmPositions_def keptIndices_def)
  next
    case False
    obtain td n2 where s2: "batchGetUnderlyingTokens E r lps tb n1 = (td, n2)"
      by (cases "batchGetUnderlyingTokens E r lps tb n1")
    then have md: "runMetadata E r tb n = (td, n2)" by (simp add: runMetadata_def items sn)
    obtain prs n3 where s3: "batchGetPositions E r vault a (map underlyingAddress td) tb n2 = (prs, n3)"
      by (cases "batchGetPositions E r vault a (map underlyingAddress td) tb n2")
    then have q: "runQuantities E r a c tb n = prs" by (simp add: runQuantities_def cfg md)
    from assms va vc cfg g res False s2 s3 obtain entries where j: "joinLoop E td prs 0 = Inr entries"
      and rep: "rep = \<lparr>chainId = c, chainName = name, pmmAddress = a,
                                         targetBlock = blockLabelOf tb, positions = entries,
                                         summary = \<lparr>totalTokens = length td,
                                                    tokensWithPositions = length entries,
                                                    fetchTime = clock 1 - clock 0\<rparr>\<rparr>"
      by (auto simp: listPmmPositions_def split: sum.splits)
    have l: "length prs = length td" using len q md by simp
    have can: "list_all canonical prs" using runQuantities_canonical[of E r a c tb n] q by simp
    from joinLoop_entries[OF j _ can] l
    have e: "entries = map (\<lambda>k. entryAt E (td ! k) (prs ! k)) (keptIndices prs)"
      by (simp add: keptIndices_def)
    have lt: "length td = length lps" using batchGetUnderlyingTokens_lp[of E r lps tb n1] s2 by (metis fst_conv length_map)
    show ?thesis using va vc cfg g res items rep e lt md q by simp
  qed
qed

section \<open>A concrete run\<close>


lemma demo_scan: "getAllLPTokens demoRemote None 0 = (Inr [''0xA1'', ''0xA2'', ''0xA3''], 4)"
  unfolding One_nat_def
  by (simp add: getAllLPTokens_def getProvider_def scanLoop.simps demoRemote_def timeoutRemote_def truthy_def ZeroAddress_def)

lemma demo_stage2:
  "batchGetUnderlyingTokens stubEthers demoRemote [''0xA1'', ''0xA2'', ''0xA3''] None 4 = (demoMetadata, 6)"
  by code_simp

lemma demo_stage3:
  "batchGetPositions stubEthers demoRemote ''0xBA8dB0CAf781cAc69b6acf6C848aC148264Cc05d'' ''0xB0B''
     [''0xU1'', ''0xA2'', ''0xU3''] None 6 = (demoQuantities, 7)"
  unfolding One_nat_def demoQuantities_def
  by (simp add: batchGetPositions_def positionChunks.simps positionChunk_def batchCallWithRetry_rounds
       batchCall_def aggregate3_def demoRemote_def timeoutRemote_def demoAnswer_def positionCalls_def
       createContractCall_def failedIndices_def upt3 nth_opt_def decodePosition_def stubEthers_def
       bigint_toString_def natToString.simps digitChar_simps)

lemma demo_stage3_other:
  "batchGetPositions stubEthers demoRemote ''0xBA8dB0CAf781cAc69b6acf6C848aC148264Cc05d'' ''0xCAFE''
     [''0xU1'', ''0xA2'', ''0xU3''] None 6 = (zeroQuantities, 7)"
  unfolding One_nat_def zeroQuantities_def
  by (simp add: batchGetPositions_def positionChunks.simps positionChunk_def batchCallWithRetry_rounds
       batchCall_def aggregate3_def demoRemote_def timeoutRemote_def demoAnswer_def positionCalls_def
       createContractCall_def failedIndices_def upt3 nth_opt_def decodePosition_def stubEthers_def
       bigint_toString_def natToString.simps digitChar_simps)

lemma demo_join: "joinLoop stubEthers demoMetadata demoQuantities 0 = Inr (positions demoReport)"
  unfolding demoMetadata_def demoQuantities_def demoReport_def
  by (simp add: nth_opt_def stubEthers_def BigInt_def digitVal_def bigint_toString_def natToString.simps digitChar_simps)

lemma demo_run_clock:
  "listPmmPositions stubEthers demoRemote clock ''0xB0B'' 56 None 0
     = (Inr (demoReport\<lparr>summary := (summary demoReport)\<lparr>fetchTime := clock 1 - clock 0\<rparr>\<rparr>), 7)"
proof -
  have a: "isAddress stubEthers ''0xB0B''" by (simp add: stubEthers_def)
  have c: "isValidChainId 56" by (simp add: isValidChainId_def SUPPORTED_CHAIN_IDS_def)
  have cfg: "CHAIN_CONFIGS 56 = Some (''BSC'', ''0xBA8dB0CAf781cAc69b6acf6C848aC148264Cc05d'')"
    by (simp add: CHAIN_CONFIGS_def)
  have u: "map underlyingAddress demoMetadata = [''0xU1'', ''0xA2'', ''0xU3'']" by (simp add: demoMetadata_def)
  have l: "length demoMetadata = 3" by (simp add: demoMetadata_def)
  have r: "\<lparr>chainId = 56, chainName = ''BSC'', pmmAddress = ''0xB0B'', targetBlock = blockLabelOf None,
            positions = positions demoReport,
            summary = \<lparr>totalTokens = 3, tokensWithPositions = length (positions demoReport),
                       fetchTime = clock 1 - clock 0\<rparr>\<rparr>
           = demoReport\<lparr>summary := (summary demoReport)\<lparr>fetchTime := clock 1 - clock 0\<rparr>\<rparr>"
    by (simp add: demoReport_def blockLabelOf_def)
  show ?thesis
    by (simp add: listPmmPositions_def a c cfg demo_scan demo_stage2 u demo_stage3 demo_join l r del: One_nat_def)
qed

lemma demo_run:
  "listPmmPositions stubEthers demoRemote demoClock ''0xB0B'' 56 None 0 = (Inr demoReport, 7)"
  using demo_run_clock[of demoClock] by (simp add: demoClock_def demoReport_def)

lemma demo_lists:
  "runItems demoRemote None 0 = [''0xA1'', ''0xA2'', ''0xA3'']"
  "runMetadata stubEthers demoRemote None 0 = (demoMetadata, 6)"
  "runQuantities stubEthers demoRemote ''0xB0B'' 56 None 0 = demoQuantities"
  "runQuantities stubEthers demoRemote ''0xCAFE'' 56 None 0 = zeroQuantities"
proof -
  show i: "runItems demoRemote None 0 = [''0xA1'', ''0xA2'', ''0xA3'']" by (simp add: runItems_def demo_scan)
  show m: "runMetadata stubEthers demoRemote None 0 = (demoMetadata, 6)"
    by (simp add: runMetadata_def i demo_scan demo_stage2)
  have u: "map underlyingAddress demoMetadata = [''0xU1'', ''0xA2'', ''0xU3'']" by (simp add: demoMetadata_def)
  show "runQuantities stubEthers demoRemote ''0xB0B'' 56 None 0 = demoQuantities"
    by (simp add: runQuantities_def m CHAIN_CONFIGS_def u demo_stage3 del: One_nat_def)
  show "runQuantities stubEthers demoRemote ''0xCAFE'' 56 None 0 = zeroQuantities"
    by (simp add: runQuantities_def m CHAIN_CONFIGS_def u demo_stage3_other del: One_nat_def)
qed

section \<open>Index alignment of the stages\<close>

lemma scanLoop_reads:
  "index \<le> 1000 \<Longrightarrow>
   \<exists>k. fst (scanLoop r b index acc n)
        = acc @ map (\<lambda>i. projr (allLPTokens_at r (n + (i - index)) b i)) [index..<index + k]"
proof (induction r b index acc n rule: scanLoop.induct)
  case (1 r b index acc n)
  note le = \<open>index \<le> 1000\<close>
  have stop: "scanLoop r b index acc n = (acc, Suc n) \<Longrightarrow> ?case"
  proof -
    assume "scanLoop r b index acc n = (acc, Suc n)"
    then have "fst (scanLoop r b index acc n)
        = acc @ map (\<lambda>i. projr (allLPTokens_at r (n + (i - index)) b i)) [index..<index + 0]" by simp
    then show ?case by blast
  qed
  show ?case
  proof (cases "allLPTokens_at r n b index")
    case (Inl m)
    then have "scanLoop r b index acc n = (acc, Suc n)" by (simp add: scanLoop.simps)
    then show ?thesis by (rule stop)
  next
    case (Inr a)
    show ?thesis
    proof (cases "truthy a \<and> a \<noteq> ZeroAddress")
      case False
      then have "scanLoop r b index acc n = (acc, Suc n)" using Inr by (auto simp add: scanLoop.simps)
      then show ?thesis by (rule stop)
    next
      case True
      show ?thesis
      proof (cases "index + 1 > 1000")
        case T: True
        then have "scanLoop r b index acc n = (acc @ [a], Suc n)" using Inr True by (simp add: scanLoop.simps)
        then have "fst (scanLoop r b index acc n)
          = acc @ map (\<lambda>i. projr (allLPTokens_at r (n + (i - index)) b i)) [index..<index + 1]"
          using Inr by simp
        then show ?thesis by blast
      next
        case F: False
        have le': "index + 1 \<le> 1000" using F by simp
        have eq: "scanLoop r b index acc n = scanLoop r b (index + 1) (acc @ [a]) (Suc n)"
          using Inr True F by (simp add: scanLoop.simps)
        from 1(1)[OF Inr True F le'] obtain k where
          k: "fst (scanLoop r b (index + 1) (acc @ [a]) (Suc n))
              = (acc @ [a]) @ map (\<lambda>i. projr (allLPTokens_at r (Suc n + (i - (index + 1))) b i)) [index + 1..<index + 1 + k]"
          by blast
        have sh: "map (\<lambda>i. projr (allLPTokens_at r (Suc n + (i - (index + 1))) b i)) [index + 1..<index + 1 + k]
           = map (\<lambda>i. projr (allLPTokens_at r (n + (i - index)) b i)) [index + 1..<index + 1 + k]"
        proof (rule map_cong)
          fix x assume "x \<in> set [index + 1..<index + 1 + k]"
          then have "index + 1 \<le> x" by (simp only: set_upt atLeastLessThan_iff)
          then have "Suc n + (x - (index + 1)) = n + (x - index)" by arith
          then show "projr (allLPTokens_at r (Suc n + (x - (index + 1))) b x) = projr (allLPTokens_at r (n + (x - index)) b x)"
            by (rule arg_cong[where f="\<lambda>k. projr (allLPTokens_at r k b x)"])
        qed simp
        have upt: "[index..<index + (k + 1)] = index # [index + 1..<index + 1 + k]"
          by (simp add: upt_conv_Cons)
        have "fst (scanLoop r b index acc n)
          = acc @ map (\<lambda>i. projr (allLPTokens_at r (n + (i - index)) b i)) [index..<index + (k + 1)]"
          unfolding eq k sh upt using Inr by simp
        then show ?thesis by blast
      qed
    qed
  qed
qed

lemma runItems_nth:
  "i < length (runItems r tb n) \<Longrightarrow> runItems r tb n ! i = projr (allLPTokens_at r (n + i) tb i)"
proof -
  assume i: "i < length (runItems r tb n)"
  show ?thesis
  proof (cases "probe r")
    case (Some m)
    then have "runItems r tb n = []" by (simp add: runItems_def getAllLPTokens_def getProvider_def)
    then show ?thesis using i by simp
  next
    case None
    then have ri: "runItems r tb n = fst (scanLoop r tb 0 [] n)"
      by (simp add: runItems_def getAllLPTokens_def getProvider_def split: prod.splits)
    from scanLoop_reads[of 0 r tb "[]" n] obtain k where
      "fst (scanLoop r tb 0 [] n) = map (\<lambda>i. projr (allLPTokens_at r (n + i) tb i)) [0..<k]" by auto
    then show ?thesis using i ri by simp
  qed
qed

lemma keptIndices_sorted: "sorted_wrt (<) (keptIndices prs)"
  by (simp add: keptIndices_def sorted_wrt_filter)



section \<open>Which indices reach the report\<close>

lemma length_filter_indices:
  "length (filter (\<lambda>i. P (xs ! i)) [0..<length xs]) = length (filter P xs)"
proof -
  have "filter P xs = filter P (map (\<lambda>i. xs ! i) [0..<length xs])" by (simp add: map_nth)
  also have "\<dots> = map (\<lambda>i. xs ! i) (filter (\<lambda>i. P (xs ! i)) [0..<length xs])"
    by (simp add: filter_map comp_def)
  finally show ?thesis by simp
qed

lemma keptIndices_Nil: "list_all (\<lambda>pr. \<not> hasPosition pr) prs \<Longrightarrow> keptIndices prs = []"
  by (auto simp: keptIndices_def list_all_length filter_empty_conv)

lemma joinLoop_no_positions:
  "i + length td \<le> length prs \<Longrightarrow> list_all canonical prs \<Longrightarrow> list_all (\<lambda>pr. \<not> hasPosition pr) prs \<Longrightarrow>
   joinLoop E td prs i = Inr []"
proof (induction td arbitrary: i)
  case Nil
  then show ?case by simp
next
  case (Cons t ts)
  have ir: "i < length prs" using Cons(2) by simp
  then have no: "nth_opt prs i = Some (prs ! i)" by (simp add: nth_opt_def)
  have can: "canonical (prs ! i)" using Cons(3) ir by (simp add: list_all_length)
  have "\<not> hasPosition (prs ! i)" using Cons(4) ir by (simp add: list_all_length)
  then have tst: "(success_r (prs ! i) \<and> position_r (prs ! i) \<noteq> ''0'') = False"
    using canonical_test[OF can] by simp
  have "joinLoop E (t # ts) prs i = joinLoop E ts prs (i + 1)"
    by (simp only: joinLoop.simps no option.case tst if_False)
  moreover have "(i + 1) + length ts \<le> length prs" using Cons(2) by simp
  ultimately show ?case using Cons(1)[of "i + 1"] Cons(3,4) by simp
qed

lemma listPmmPositions_no_positions:
  assumes "isAddress E a" "isValidChainId c" "probe r = None"
    and none: "list_all (\<lambda>pr. \<not> hasPosition pr) (runQuantities E r a c tb n)"
  shows "\<exists>rep n'. listPmmPositions E r clock a c tb n = (Inr rep, n')"
proof -
  from assms(2) obtain name vault where cfg: "CHAIN_CONFIGS c = Some (name, vault)"
    by (auto simp: isValidChainId_def SUPPORTED_CHAIN_IDS_def CHAIN_CONFIGS_def)
  obtain lps n1 where g: "getAllLPTokens r tb n = (Inr lps, n1)"
    using assms(3) by (cases "scanLoop r tb 0 [] n") (simp add: getAllLPTokens_def getProvider_def)
  have items: "runItems r tb n = lps" and sn: "snd (getAllLPTokens r tb n) = n1"
    using g by (simp_all add: runItems_def)
  show ?thesis
  proof (cases "lps = []")
    case True
    then show ?thesis using assms(1,2) cfg g by (simp add: listPmmPositions_def)
  next
    case False
    obtain td n2 where s2: "batchGetUnderlyingTokens E r lps tb n1 = (td, n2)"
      by (cases "batchGetUnderlyingTokens E r lps tb n1")
    then have md: "runMetadata E r tb n = (td, n2)" by (simp add: runMetadata_def items sn)
    obtain prs n3 where s3: "batchGetPositions E r vault a (map underlyingAddress td) tb n2 = (prs, n3)"
      by (cases "batchGetPositions E r vault a (map underlyingAddress td) tb n2")
    then have q: "runQuantities E r a c tb n = prs" by (simp add: runQuantities_def cfg md)
    have "map tokenAddress_r prs = map underlyingAddress td"
      using batchGetPositions_props[of E r vault a "map underlyingAddress td" tb n2] s3 by simp
    then have l: "length prs = length td" by (metis length_map)
    have can: "list_all canonical prs" using runQuantities_canonical[of E r a c tb n] q by simp
    have "joinLoop E td prs 0 = Inr []"
      using joinLoop_no_positions[of 0 td prs E] l can none q by simp
    then show ?thesis using assms(1,2) cfg g False s2 s3 by (simp add: listPmmPositions_def)
  qed
qed

text \<open>
  Claim C8. In every run that returns a report, the entries are exactly those of the
  indices whose position result is successful with a non-zero signed quantity (a negative
  quantity counts), one entry per such index; a zero or failed quantity gives no entry.
  \<open>tokensWithPositions\<close> is the number of entries. Zero and failed quantities are no
  error: for a well-formed owner on a supported chain with a reachable endpoint, when no
  index has a position the run returns a report, its entry list is empty and
  \<open>tokensWithPositions\<close> is 0.
\<close>

theorem report_entries_iff_position:
  "(\<forall>rep n'. listPmmPositions E r clock trader chain b n = (Inr rep, n') \<longrightarrow>
       positions rep
           = map (\<lambda>i. entryAt E (fst (runMetadata E r b n) ! i) (runQuantities E r trader chain b n ! i))
               (filter (\<lambda>i. success_r (runQuantities E r trader chain b n ! i)
                              \<and> quantity (runQuantities E r trader chain b n ! i) \<noteq> 0)
                  [0..<length (runQuantities E r trader chain b n)])
         \<and> list_all canonical (runQuantities E r trader chain b n)
         \<and> length (positions rep) = length (filter hasPosition (runQuantities E r trader chain b n))
         \<and> tokensWithPositions (summary rep) = length (positions rep))
   \<and> (isAddress E trader \<and> isValidChainId chain \<and> probe r = None
        \<and> list_all (\<lambda>pr. \<not> hasPosition pr) (runQuantities E r trader chain b n) \<longrightarrow>
        (\<exists>rep n'. listPmmPositions E r clock trader chain b n = (Inr rep, n')
                  \<and> positions rep = [] \<and> tokensWithPositions (summary rep) = 0))"
proof (intro conjI allI impI)
  fix rep n'
  assume run: "listPmmPositions E r clock trader chain b n = (Inr rep, n')"
  note R = listPmmPositions_report[OF run]
  let ?qs = "runQuantities E r trader chain b n"
  have p: "positions rep = map (\<lambda>i. entryAt E (fst (runMetadata E r b n) ! i) (?qs ! i)) (keptIndices ?qs)"
    using R by simp
  have t: "tokensWithPositions (summary rep) = length (keptIndices ?qs)" using R by simp
  have k: "length (keptIndices ?qs) = length (filter hasPosition ?qs)"
    by (simp add: keptIndices_def length_filter_indices)
  show "positions rep
           = map (\<lambda>i. entryAt E (fst (runMetadata E r b n) ! i) (?qs ! i))
               (filter (\<lambda>i. success_r (?qs ! i) \<and> quantity (?qs ! i) \<noteq> 0) [0..<length ?qs])"
    using p by (simp add: keptIndices_def hasPosition_def)
  show "list_all canonical ?qs" by (rule runQuantities_canonical)
  show "length (positions rep) = length (filter hasPosition ?qs)" using p k by simp
  show "tokensWithPositions (summary rep) = length (positions rep)" using p t by simp
next
  let ?qs = "runQuantities E r trader chain b n"
  assume h: "isAddress E trader \<and> isValidChainId chain \<and> probe r = None
        \<and> list_all (\<lambda>pr. \<not> hasPosition pr) ?qs"
  then have none: "list_all (\<lambda>pr. \<not> hasPosition pr) ?qs" by simp
  from h listPmmPositions_no_positions[of E trader chain r b n clock]
  obtain rep n' where run: "listPmmPositions E r clock trader chain b n = (Inr rep, n')" by blast
  note R = listPmmPositions_report[OF run]
  have "keptIndices ?qs = []" using none by (rule keptIndices_Nil)
  then have "positions rep = [] \<and> tokensWithPositions (summary rep) = 0" using R by simp
  then show "\<exists>rep n'. listPmmPositions E r clock trader chain b n = (Inr rep, n')
                  \<and> positions rep = [] \<and> tokensWithPositions (summary rep) = 0"
    using run by blast
qed

lemma demo_kept: "keptIndices demoQuantities = [0, 2]"
  by (simp add: keptIndices_def demoQuantities_def hasPosition_def quantity_def BigInt_def digitVal_def upt3)

theorem report_entries_iff_position_witness:
  "listPmmPositions stubEthers demoRemote demoClock ''0xB0B'' 56 None 0 = (Inr demoReport, 7)
   \<and> map quantity (runQuantities stubEthers demoRemote ''0xB0B'' 56 None 0) = [3, 0, - 1]
   \<and> map success_r (runQuantities stubEthers demoRemote ''0xB0B'' 56 None 0) = [True, True, True]
   \<and> positions demoReport
       = [entryAt stubEthers (demoMetadata ! 0) (demoQuantities ! 0),
          entryAt stubEthers (demoMetadata ! 2) (demoQuantities ! 2)]
   \<and> tokensWithPositions (summary demoReport) = 2
   \<and> isAddress stubEthers ''0xCAFE'' \<and> isValidChainId 56 \<and> probe demoRemote = None
   \<and> map quantity (runQuantities stubEthers demoRemote ''0xCAFE'' 56 None 0) = [0, 0, 0]
   \<and> (\<exists>rep n'. listPmmPositions stubEthers demoRemote demoClock ''0xCAFE'' 56 None 0 = (Inr rep, n')
                \<and> positions rep = [] \<and> tokensWithPositions (summary rep) = 0)"
proof -
  note T = report_entries_iff_position[where E=stubEthers and r=demoRemote and clock=demoClock
              and chain=56 and b=None and n=0]
  have q: "map quantity demoQuantities = [3, 0, - 1]" "map success_r demoQuantities = [True, True, True]"
    "length demoQuantities = 3"
    by (simp_all add: demoQuantities_def quantity_def BigInt_def digitVal_def)
  have f: "filter (\<lambda>i. success_r (demoQuantities ! i) \<and> quantity (demoQuantities ! i) \<noteq> 0) [0..<3] = [0, 2]"
    using demo_kept by (simp add: keptIndices_def hasPosition_def q(3))
  from T[where trader="''0xB0B''"] demo_run
  have "positions demoReport
           = map (\<lambda>i. entryAt stubEthers (fst (runMetadata stubEthers demoRemote None 0) ! i)
                        (runQuantities stubEthers demoRemote ''0xB0B'' 56 None 0 ! i))
               (filter (\<lambda>i. success_r (runQuantities stubEthers demoRemote ''0xB0B'' 56 None 0 ! i)
                              \<and> quantity (runQuantities stubEthers demoRemote ''0xB0B'' 56 None 0 ! i) \<noteq> 0)
                  [0..<length (runQuantities stubEthers demoRemote ''0xB0B'' 56 None 0)])"
    and "tokensWithPositions (summary demoReport) = length (positions demoReport)"
    by blast+
  then have first: "positions demoReport
       = [entryAt stubEthers (demoMetadata ! 0) (demoQuantities ! 0),
          entryAt stubEthers (demoMetadata ! 2) (demoQuantities ! 2)]"
    "tokensWithPositions (summary demoReport) = 2"
    by (simp_all add: demo_lists q f)
  have a: "isAddress stubEthers ''0xCAFE''" by (simp add: stubEthers_def)
  have c: "isValidChainId 56" by (simp add: isValidChainId_def SUPPORTED_CHAIN_IDS_def)
  have pr: "probe demoRemote = None" by (simp add: demoRemote_def timeoutRemote_def)
  have z: "map quantity zeroQuantities = [0, 0, 0]"
    by (simp add: zeroQuantities_def quantity_def BigInt_def digitVal_def)
  have none: "list_all (\<lambda>pr. \<not> hasPosition pr) (runQuantities stubEthers demoRemote ''0xCAFE'' 56 None 0)"
    by (simp add: demo_lists zeroQuantities_def hasPosition_def quantity_def BigInt_def digitVal_def)
  from T[where trader="''0xCAFE''"] a c pr none
  have second: "\<exists>rep n'. listPmmPositions stubEthers demoRemote demoClock ''0xCAFE'' 56 None 0 = (Inr rep, n')
                \<and> positions rep = [] \<and> tokensWithPositions (summary rep) = 0"
    by blast
  show ?thesis using demo_run q first a c pr z second by (simp add: demo_lists)
qed

section \<open>Order of the report\<close>

text \<open>
  Claim C10. The entries of the report appear in discovery order. They are built, in
  ascending order of the index, from the indices whose position result is successful and
  non-zero; the metadata at such an index belongs to the item discovered at that index,
  and that item is the address the registry returned for the index (the scan appends in
  ascending index order, and stage 2, stage 3 and the join never reorder).
\<close>

theorem report_in_discovery_order:
  assumes "listPmmPositions E r clock trader chain b n = (Inr rep, n')"
  shows "positions rep
           = map (\<lambda>i. entryAt E (fst (runMetadata E r b n) ! i) (runQuantities E r trader chain b n ! i))
               (keptIndices (runQuantities E r trader chain b n))
         \<and> sorted_wrt (<) (keptIndices (runQuantities E r trader chain b n))
         \<and> list_all (\<lambda>i. i < length (runItems r b n)
                          \<and> lpTokenAddress (fst (runMetadata E r b n) ! i) = runItems r b n ! i
                          \<and> runItems r b n ! i = projr (allLPTokens_at r (n + i) b i))
              (keptIndices (runQuantities E r trader chain b n))
         \<and> map tokenAddress (positions rep)
             = map (\<lambda>i. underlyingAddress (fst (runMetadata E r b n) ! i))
                 (keptIndices (runQuantities E r trader chain b n))"
proof -
  note R = listPmmPositions_report[OF assms]
  let ?qs = "runQuantities E r trader chain b n"
  let ?md = "fst (runMetadata E r b n)"
  have p: "positions rep = map (\<lambda>i. entryAt E (?md ! i) (?qs ! i)) (keptIndices ?qs)"
    using R by simp
  from R have cfg: "CHAIN_CONFIGS chain \<noteq> None" by simp
  have lq: "length ?qs = length ?md" using runQuantities_length[OF cfg] by simp
  have mi: "map lpTokenAddress ?md = runItems r b n" by (rule runMetadata_items)
  then have lm: "length ?md = length (runItems r b n)" by (metis length_map)
  have al: "list_all (\<lambda>i. i < length (runItems r b n)
                          \<and> lpTokenAddress (?md ! i) = runItems r b n ! i
                          \<and> runItems r b n ! i = projr (allLPTokens_at r (n + i) b i)) (keptIndices ?qs)"
    unfolding list_all_iff
  proof
    fix i assume "i \<in> set (keptIndices ?qs)"
    then have i: "i < length (runItems r b n)" using lq lm by (simp add: keptIndices_def)
    then have "lpTokenAddress (?md ! i) = runItems r b n ! i" using mi lm by (metis nth_map)
    then show "i < length (runItems r b n) \<and> lpTokenAddress (?md ! i) = runItems r b n ! i
        \<and> runItems r b n ! i = projr (allLPTokens_at r (n + i) b i)"
      using i runItems_nth[OF i] by simp
  qed
  have ta: "map tokenAddress (positions rep) = map (\<lambda>i. underlyingAddress (?md ! i)) (keptIndices ?qs)"
    unfolding p by (simp add: entryAt_def)
  show ?thesis using p keptIndices_sorted[of ?qs] al ta by blast
qed

theorem report_in_discovery_order_witness:
  "listPmmPositions stubEthers demoRemote demoClock ''0xB0B'' 56 None 0 = (Inr demoReport, 7)
   \<and> runItems demoRemote None 0 = [''0xA1'', ''0xA2'', ''0xA3'']
   \<and> keptIndices (runQuantities stubEthers demoRemote ''0xB0B'' 56 None 0) = [0, 2]
   \<and> map tokenAddress (positions demoReport) = [''0xU1'', ''0xU3'']
   \<and> map lpTokenAddress_d (positions demoReport) = [Some ''0xA1'', Some ''0xA3'']"
proof -
  from report_in_discovery_order[OF demo_run]
  have "map tokenAddress (positions demoReport)
             = map (\<lambda>i. underlyingAddress (fst (runMetadata stubEthers demoRemote None 0) ! i))
                 (keptIndices (runQuantities stubEthers demoRemote ''0xB0B'' 56 None 0))"
    by (elim conjE)
  then have "map tokenAddress (positions demoReport)
             = map (\<lambda>i. underlyingAddress (demoMetadata ! i)) (keptIndices demoQuantities)"
    by (simp only: demo_lists fst_conv)
  then have "map tokenAddress (positions demoReport) = [''0xU1'', ''0xU3'']"
    by (simp add: demo_kept demoMetadata_def)
  moreover have "map lpTokenAddress_d (positions demoReport) = [Some ''0xA1'', Some ''0xA3'']"
    by (simp add: demoReport_def)
  ultimately show ?thesis using demo_run demo_lists demo_kept by simp
qed

section \<open>Fallback policy, batch failure and the clock\<close>

lemma decodeTriplet_fallback:
  "isl (decodeAddress E (data u)) \<or> isl (decodeUint8 E (data d)) \<or> isl (decodeString E (data s))
   \<or> decodeAddress E (data u) = Inr ZeroAddress \<or> decodeAddress E (data u) = Inr []
   \<Longrightarrow> decodeTriplet E lp u d s = fallbackToken lp"
  by (auto simp: decodeTriplet_def truthy_def isl_def split: sum.splits)

lemma decodeTriplet_shape:
  "decodeTriplet E lp u d s = fallbackToken lp
   \<or> (isLPToken (decodeTriplet E lp u d s) \<and> lpTokenAddress (decodeTriplet E lp u d s) = lp
       \<and> underlyingAddress (decodeTriplet E lp u d s) \<noteq> ZeroAddress)"
  by (auto simp: decodeTriplet_def split: sum.splits)

lemma tripletEntry_shape:
  "tripletEntry E lp results j = fallbackToken lp
   \<or> (isLPToken (tripletEntry E lp results j) \<and> lpTokenAddress (tripletEntry E lp results j) = lp
       \<and> underlyingAddress (tripletEntry E lp results j) \<noteq> ZeroAddress)"
  using decodeTriplet_shape[of E lp] by (simp add: tripletEntry_def)

lemma tripletEntry_form: "fallbackOrResolved (tripletEntry E lp results j)"
  using tripletEntry_shape[of E lp results j] tripletEntry_lp[of E lp results j]
  by (auto simp: fallbackOrResolved_def)

lemma underlyingFallback_form: "list_all fallbackOrResolved (fst (underlyingFallback r b batch n))"
proof (induction batch arbitrary: n)
  case Nil
  then show ?case by simp
next
  case (Cons lp rest)
  obtain ud n1 where g: "getUnderlyingToken r lp b n = (ud, n1)" by (cases "getUnderlyingToken r lp b n")
  obtain es n2 where f: "underlyingFallback r b rest n1 = (es, n2)" by (cases "underlyingFallback r b rest n1")
  from Cons[of n1] f have es: "list_all fallbackOrResolved es" by simp
  have h: "fallbackOrResolved
             (case ud of
                Some (a, d, s) \<Rightarrow>
                  if a \<noteq> ZeroAddress then
                    \<lparr>lpTokenAddress = lp, underlyingAddress = a, decimals = d, symbol = s,
                     isLPToken = True\<rparr>
                  else fallbackToken lp
              | None \<Rightarrow> fallbackToken lp)"
    by (auto simp: fallbackOrResolved_def fallbackToken_def split: option.splits)
  show ?case using g f es h by simp
qed

lemma underlyingChunk_form: "list_all fallbackOrResolved (fst (underlyingChunk E r b batch n))"
proof -
  obtain res n' where bc: "batchCallWithRetry r (tripletCalls batch) 1 b n = (res, n')"
    by (cases "batchCallWithRetry r (tripletCalls batch) 1 b n")
  show ?thesis
  proof (cases res)
    case (Inl msg)
    then show ?thesis using bc underlyingFallback_form[of r b batch n'] by (simp add: underlyingChunk_def)
  next
    case (Inr results)
    then have "batchCallWithRetry r (tripletCalls batch) 1 b n = (Inr results, n')" using bc by simp
    from underlyingChunk_success[OF this]
    show ?thesis by (simp add: list_all_iff tripletEntry_form)
  qed
qed

lemma underlyingChunks_form:
  "list_all fallbackOrResolved acc \<Longrightarrow>
   list_all fallbackOrResolved (fst (underlyingChunks E r b lps i acc n))"
proof (induction E r b lps i acc n rule: underlyingChunks.induct)
  case (1 E r b lps i acc n)
  show ?case
  proof (cases "i < length lps")
    case False
    then show ?thesis using 1(2) by (simp add: underlyingChunks.simps)
  next
    case True
    obtain es n' where c: "underlyingChunk E r b (take 10 (drop i lps)) n = (es, n')"
      by (cases "underlyingChunk E r b (take 10 (drop i lps)) n")
    have "list_all fallbackOrResolved es"
      using underlyingChunk_form[of E r b "take 10 (drop i lps)" n] c by simp
    then have "list_all fallbackOrResolved (acc @ es)" using 1(2) by simp
    from 1(1)[OF True c[symmetric] this]
    show ?thesis using True c by (simp add: underlyingChunks.simps[of E r b lps i])
  qed
qed

lemma batchGetUnderlyingTokens_form:
  "list_all fallbackOrResolved (fst (batchGetUnderlyingTokens E r lps b n))"
  by (simp add: batchGetUnderlyingTokens_def underlyingChunks_form)

text \<open>
  Claim C4. In a chunk whose batch call returned, the metadata of the item at place \<open>j\<close>
  is read off its own three results only. If one of the three sub-calls is unsuccessful
  after the retry, or a decode throws, or the decoded underlying address is the zero
  address, the metadata is exactly the fallback value (the LP token itself, 18 decimals,
  symbol \<open>LP\<close>, \<open>isLPToken = false\<close>). Every item yields exactly one entry: the chunk
  returns as many entries as it has items, the whole stage returns the items' entries in
  order, and each of them is either the fallback value of its item or a resolved entry
  with a non-zero underlying address, also when a chunk had to be redone by single reads.
\<close>

theorem metadata_fallback_policy:
  assumes "batchCallWithRetry r (tripletCalls batch) 1 b n = (Inr results, n')"
    and "j < length batch"
  shows "length (fst (underlyingChunk E r b batch n)) = length batch
     \<and> fst (underlyingChunk E r b batch n) ! j = tripletEntry E (batch ! j) results j
     \<and> (\<not> success (results ! (j * 3)) \<or> \<not> success (results ! (j * 3 + 1)) \<or> \<not> success (results ! (j * 3 + 2))
          \<longrightarrow> fst (underlyingChunk E r b batch n) ! j = fallbackToken (batch ! j))
     \<and> (isl (decodeAddress E (data (results ! (j * 3)))) \<or> isl (decodeUint8 E (data (results ! (j * 3 + 1))))
          \<or> isl (decodeString E (data (results ! (j * 3 + 2))))
          \<or> decodeAddress E (data (results ! (j * 3))) = Inr ZeroAddress
          \<longrightarrow> fst (underlyingChunk E r b batch n) ! j = fallbackToken (batch ! j))
     \<and> map lpTokenAddress (fst (batchGetUnderlyingTokens E r lps b m)) = lps
     \<and> list_all fallbackOrResolved (fst (batchGetUnderlyingTokens E r lps b m))"
proof -
  have c: "underlyingChunk E r b batch n
           = (map (\<lambda>k. tripletEntry E (batch ! k) results k) [0..<length batch], n')"
    by (rule underlyingChunk_success[OF assms(1)])
  then have e: "fst (underlyingChunk E r b batch n) ! j = tripletEntry E (batch ! j) results j"
    using assms(2) by simp
  have l: "length (fst (underlyingChunk E r b batch n)) = length batch" using c by simp
  have f1: "\<not> success (results ! (j * 3)) \<or> \<not> success (results ! (j * 3 + 1)) \<or> \<not> success (results ! (j * 3 + 2))
          \<longrightarrow> fst (underlyingChunk E r b batch n) ! j = fallbackToken (batch ! j)"
    unfolding e by (auto simp: tripletEntry_def)
  have f2: "isl (decodeAddress E (data (results ! (j * 3)))) \<or> isl (decodeUint8 E (data (results ! (j * 3 + 1))))
          \<or> isl (decodeString E (data (results ! (j * 3 + 2))))
          \<or> decodeAddress E (data (results ! (j * 3))) = Inr ZeroAddress
          \<longrightarrow> fst (underlyingChunk E r b batch n) ! j = fallbackToken (batch ! j)"
    unfolding e using decodeTriplet_fallback[of E "results ! (j * 3)" "results ! (j * 3 + 1)" "results ! (j * 3 + 2)" "batch ! j"]
    by (auto simp: tripletEntry_def)
  show ?thesis
    using l e f1 f2 batchGetUnderlyingTokens_lp[of E r lps b m] batchGetUnderlyingTokens_form[of E r lps b m]
    by blast
qed

lemma demo_retry:
  "batchCallWithRetry demoRemote (tripletCalls [''0xA1'', ''0xA2'', ''0xA3'']) 1 None 4 = (Inr demoResults, 6)"
  by code_simp

theorem metadata_fallback_policy_witness:
  "batchCallWithRetry demoRemote (tripletCalls [''0xA1'', ''0xA2'', ''0xA3'']) 1 None 4 = (Inr demoResults, 6)
   \<and> (Suc 0) < length [''0xA1'', ''0xA2'', ''0xA3'']
   \<and> success (demoResults ! (Suc 0 * 3)) = False
   \<and> fst (underlyingChunk stubEthers demoRemote None [''0xA1'', ''0xA2'', ''0xA3''] 4) ! Suc 0
       = fallbackToken ''0xA2''
   \<and> length (fst (underlyingChunk stubEthers demoRemote None [''0xA1'', ''0xA2'', ''0xA3''] 4)) = 3"
proof -
  have j: "Suc 0 < length [''0xA1'', ''0xA2'', ''0xA3'']" by simp
  have s: "success (demoResults ! (Suc 0 * 3)) = False"
    by (simp add: demoResults_def tripletCalls_def createContractCall_def demoAnswer_def)
  note T = metadata_fallback_policy[OF demo_retry j, where E=stubEthers and lps="[]" and m=0]
  from T have "\<not> success (demoResults ! (Suc 0 * 3)) \<or> \<not> success (demoResults ! (Suc 0 * 3 + 1)) \<or> \<not> success (demoResults ! (Suc 0 * 3 + 2))
          \<longrightarrow> fst (underlyingChunk stubEthers demoRemote None [''0xA1'', ''0xA2'', ''0xA3''] 4) ! Suc 0
               = fallbackToken ([''0xA1'', ''0xA2'', ''0xA3''] ! Suc 0)"
    by blast
  then have f: "fst (underlyingChunk stubEthers demoRemote None [''0xA1'', ''0xA2'', ''0xA3''] 4) ! Suc 0
               = fallbackToken ''0xA2''" using s by simp
  from T have "length (fst (underlyingChunk stubEthers demoRemote None [''0xA1'', ''0xA2'', ''0xA3''] 4))
      = length [''0xA1'', ''0xA2'', ''0xA3'']" by blast
  then show ?thesis using demo_retry j s f by simp
qed

text \<open>
  Claim C5. When the aggregate request of a chunk fails outright, the chunk is redone by
  single reads and nothing propagates: one entry per item. A failed single read should
  leave a \<open>success = false\<close> placeholder (or the fallback metadata). Stage 2 does give the
  fallback metadata, and the browser and handler variants of stage 3 give
  \<open>success = false\<close>; the library's stage 3 goes through \<open>getPosition\<close>, which swallows
  the error, and records the failed read as \<open>success = true\<close> with position \<open>'0'\<close>.
\<close>

theorem position_fallback_reports_success:
  "positionChunk stubEthers timeoutRemote ''0xVault'' ''0xB0B'' None [''0xT1''] 0
     = ([\<lparr>tokenAddress_r = ''0xT1'', position_r = ''0'', success_r = True, error_r = None\<rparr>], 2)
   \<and> positionsFallback_web timeoutRemote ''0xB0B'' None [''0xT1''] 1
     = ([\<lparr>tokenAddress_r = ''0xT1'', position_r = ''0'', success_r = False, error_r = None\<rparr>], 2)
   \<and> underlyingChunk stubEthers timeoutRemote None [''0xT1''] 0 = ([fallbackToken ''0xT1''], 4)"
  by (simp add: positionChunk_def underlyingChunk_def batchCallWithRetry_def batchCall_def aggregate3_def
        timeoutRemote_def getPosition_def getUnderlyingToken_def bigint_toString_zero)

section \<open>A run that follows another\<close>

text \<open>
  Against an endpoint whose answers do not depend on the request number, every routine
  that issues requests returns the same value whatever the number of its first request,
  and issues the same number of requests.
\<close>

lemma shiftBy_pair [simp]: "shiftBy d (x, k) = (x, k + d)"
  by (simp add: shiftBy_def)

lemma shiftBy_0 [simp]: "shiftBy 0 p = p"
  by (simp add: shiftBy_def)

lemma shiftBy_shiftBy: "shiftBy d (shiftBy e p) = shiftBy (e + d) p"
  by (simp add: shiftBy_def add.assoc)

lemma steadyAt_fields:
  assumes "steadyAt r b"
  shows "allLPTokens_at r n b = allLPTokens_at r 0 b"
    and "aggregate3_throws r n (blockOptions b) = aggregate3_throws r 0 (blockOptions b)"
    and "aggregate3_result r n (blockOptions b) = aggregate3_result r 0 (blockOptions b)"
    and "underlying_at r n b = underlying_at r 0 b"
    and "decimals_at r n b = decimals_at r 0 b"
    and "symbol_at r n b = symbol_at r 0 b"
    and "positions_at r n b = positions_at r 0 b"
  using assms unfolding steadyAt_def by blast+

lemma scanLoop_steady:
  assumes s: "steadyAt r b"
  shows "scanLoop r b index acc n = shiftBy n (scanLoop r b index acc 0)"
proof (induction "1001 - index" arbitrary: index acc n rule: less_induct)
  case less
  have a: "allLPTokens_at r n b index = allLPTokens_at r 0 b index"
    using steadyAt_fields(1)[OF s, of n] by simp
  show ?case
  proof (cases "allLPTokens_at r 0 b index")
    case (Inl message)
    then show ?thesis using a
      by (simp add: scanLoop.simps[of r b index acc n] scanLoop.simps[of r b index acc 0])
  next
    case (Inr x)
    show ?thesis
    proof (cases "truthy x \<and> x \<noteq> ZeroAddress \<and> \<not> index + 1 > 1000")
      case True
      then have lt: "1001 - (index + 1) < 1001 - index" by arith
      have i1: "scanLoop r b (index + 1) (acc @ [x]) (Suc n)
                  = shiftBy (Suc n) (scanLoop r b (index + 1) (acc @ [x]) 0)"
        by (rule less[OF lt])
      have i0: "scanLoop r b (index + 1) (acc @ [x]) (Suc 0)
                  = shiftBy (Suc 0) (scanLoop r b (index + 1) (acc @ [x]) 0)"
        by (rule less[OF lt])
      have ln: "scanLoop r b index acc n = scanLoop r b (index + 1) (acc @ [x]) (Suc n)"
        using a Inr True by (simp add: scanLoop.simps[of r b index acc n])
      have l0: "scanLoop r b index acc 0 = scanLoop r b (index + 1) (acc @ [x]) (Suc 0)"
        using Inr True by (simp add: scanLoop.simps[of r b index acc 0])
      show ?thesis unfolding ln l0 i1 i0 by (simp add: shiftBy_def)
    next
      case False
      then show ?thesis using a Inr
        by (auto simp: scanLoop.simps[of r b index acc n] scanLoop.simps[of r b index acc 0])
    qed
  qed
qed

lemma getAllLPTokens_steady:
  assumes s: "steadyAt r b"
  shows "getAllLPTokens r b n = shiftBy n (getAllLPTokens r b 0)"
proof -
  obtain xs k where z: "scanLoop r b 0 [] 0 = (xs, k)" by (cases "scanLoop r b 0 [] 0")
  then have "scanLoop r b 0 [] n = (xs, k + n)" using scanLoop_steady[OF s, of 0 "[]" n] by simp
  then show ?thesis using z by (simp add: getAllLPTokens_def split: sum.splits)
qed

lemma aggregate3_steady:
  assumes s: "steadyAt r b"
  shows "aggregate3 r calls b n = shiftBy n (aggregate3 r calls b 0)"
  using steadyAt_fields(2)[OF s, of n] steadyAt_fields(3)[OF s, of n]
  by (simp add: aggregate3_def split: option.splits)

lemma batchCall_steady:
  assumes s: "steadyAt r b"
  shows "batchCall r calls b n = shiftBy n (batchCall r calls b 0)"
proof -
  obtain x k where z: "aggregate3 r calls b 0 = (x, k)" by (cases "aggregate3 r calls b 0")
  then have "aggregate3 r calls b n = (x, k + n)" using aggregate3_steady[OF s, of calls n] by simp
  then show ?thesis using z by (simp add: batchCall_def split: sum.splits)
qed

lemma retryLoop_steady:
  assumes s: "steadyAt r b"
  shows "retryLoop r calls maxRetries b retryCount results n
           = shiftBy n (retryLoop r calls maxRetries b retryCount results 0)"
proof (induction "maxRetries - retryCount" arbitrary: retryCount results n rule: less_induct)
  case less
  let ?fc = "map (\<lambda>(result, index, c). c) (failedCalls results calls)"
  show ?case
  proof (cases "retryCount < maxRetries \<and> failedCalls results calls \<noteq> []")
    case False
    then show ?thesis
      by (auto simp: retryLoop.simps[of r calls maxRetries b retryCount results n]
            retryLoop.simps[of r calls maxRetries b retryCount results 0])
  next
    case True
    then have lt: "maxRetries - (retryCount + 1) < maxRetries - retryCount" by arith
    obtain x k where z: "batchCall r ?fc b 0 = (x, k)" by (cases "batchCall r ?fc b 0")
    then have zn: "batchCall r ?fc b n = (x, k + n)" using batchCall_steady[OF s, of ?fc n] by simp
    show ?thesis
    proof (cases x)
      case (Inl message)
      then show ?thesis using True z zn
        by (simp add: retryLoop.simps[of r calls maxRetries b retryCount results n]
              retryLoop.simps[of r calls maxRetries b retryCount results 0])
    next
      case (Inr retryResults)
      let ?w = "writeBack (failedCalls results calls) retryResults 0 results"
      have ln: "retryLoop r calls maxRetries b retryCount results n
                  = retryLoop r calls maxRetries b (retryCount + 1) ?w (k + n)"
        using True zn Inr by (simp add: retryLoop.simps[of r calls maxRetries b retryCount results n])
      have l0: "retryLoop r calls maxRetries b retryCount results 0
                  = retryLoop r calls maxRetries b (retryCount + 1) ?w k"
        using True z Inr by (simp add: retryLoop.simps[of r calls maxRetries b retryCount results 0])
      have i1: "retryLoop r calls maxRetries b (retryCount + 1) ?w (k + n)
                  = shiftBy (k + n) (retryLoop r calls maxRetries b (retryCount + 1) ?w 0)"
        by (rule less[OF lt])
      have i0: "retryLoop r calls maxRetries b (retryCount + 1) ?w k
                  = shiftBy k (retryLoop r calls maxRetries b (retryCount + 1) ?w 0)"
        by (rule less[OF lt])
      show ?thesis unfolding ln l0 i1 i0 by (simp add: shiftBy_shiftBy)
    qed
  qed
qed

lemma batchCallWithRetry_steady:
  assumes s: "steadyAt r b"
  shows "batchCallWithRetry r calls maxRetries b n = shiftBy n (batchCallWithRetry r calls maxRetries b 0)"
proof -
  obtain x k where z: "batchCall r calls b 0 = (x, k)" by (cases "batchCall r calls b 0")
  then have zn: "batchCall r calls b n = (x, k + n)" using batchCall_steady[OF s, of calls n] by simp
  show ?thesis
  proof (cases x)
    case (Inl message)
    then show ?thesis using z zn by (simp add: batchCallWithRetry_def)
  next
    case (Inr results)
    have "retryLoop r calls maxRetries b 0 results (k + n)
            = shiftBy n (retryLoop r calls maxRetries b 0 results k)"
      using retryLoop_steady[OF s, of calls maxRetries 0 results "k + n"]
            retryLoop_steady[OF s, of calls maxRetries 0 results k]
      by (simp add: shiftBy_shiftBy)
    then show ?thesis using z zn Inr by (simp add: batchCallWithRetry_def)
  qed
qed

lemma getUnderlyingToken_steady:
  assumes s: "steadyAt r b"
  shows "getUnderlyingToken r lp b n = shiftBy n (getUnderlyingToken r lp b 0)"
proof -
  have u: "underlying_at r n b lp = underlying_at r 0 b lp"
    using steadyAt_fields(4)[OF s, of n] by simp
  have d: "decimals_at r (n + 1) b lp = decimals_at r (0 + 1) b lp"
    using steadyAt_fields(5)[OF s, of "n + 1"] steadyAt_fields(5)[OF s, of "0 + 1"] by simp
  have y: "symbol_at r (n + 2) b lp = symbol_at r (0 + 2) b lp"
    using steadyAt_fields(6)[OF s, of "n + 2"] steadyAt_fields(6)[OF s, of "0 + 2"] by simp
  show ?thesis unfolding getUnderlyingToken_def u d y
    by (simp split: sum.splits)
qed

lemma underlyingFallback_steady:
  assumes s: "steadyAt r b"
  shows "underlyingFallback r b batch n = shiftBy n (underlyingFallback r b batch 0)"
proof (induction batch arbitrary: n)
  case Nil
  show ?case by simp
next
  case (Cons lp rest)
  obtain u k where z: "getUnderlyingToken r lp b 0 = (u, k)" by (cases "getUnderlyingToken r lp b 0")
  then have zn: "getUnderlyingToken r lp b n = (u, k + n)"
    using getUnderlyingToken_steady[OF s, of lp n] by simp
  obtain es m where y: "underlyingFallback r b rest 0 = (es, m)" by (cases "underlyingFallback r b rest 0")
  have yk: "underlyingFallback r b rest k = (es, m + k)" using Cons[of k] y by simp
  have ykn: "underlyingFallback r b rest (k + n) = (es, m + (k + n))" using Cons[of "k + n"] y by simp
  show ?case using z zn yk ykn by (simp add: add.assoc)
qed

lemma underlyingChunk_steady:
  assumes s: "steadyAt r b"
  shows "underlyingChunk E r b batch n = shiftBy n (underlyingChunk E r b batch 0)"
proof -
  obtain x k where z: "batchCallWithRetry r (tripletCalls batch) 1 b 0 = (x, k)"
    by (cases "batchCallWithRetry r (tripletCalls batch) 1 b 0")
  then have zn: "batchCallWithRetry r (tripletCalls batch) 1 b n = (x, k + n)"
    using batchCallWithRetry_steady[OF s, of "tripletCalls batch" 1 n] by simp
  obtain es m where y: "underlyingFallback r b batch 0 = (es, m)" by (cases "underlyingFallback r b batch 0")
  have yk: "underlyingFallback r b batch k = (es, m + k)"
    using underlyingFallback_steady[OF s, of batch k] y by simp
  have ykn: "underlyingFallback r b batch (k + n) = (es, m + k + n)"
    using underlyingFallback_steady[OF s, of batch "k + n"] y by (simp add: add.assoc)
  show ?thesis using z zn yk ykn
    by (simp add: underlyingChunk_def split: sum.splits prod.splits bool.splits)
qed

lemma underlyingChunks_steady:
  assumes s: "steadyAt r b"
  shows "underlyingChunks E r b lps i acc n = shiftBy n (underlyingChunks E r b lps i acc 0)"
proof (induction "length lps - i" arbitrary: i acc n rule: less_induct)
  case less
  show ?case
  proof (cases "i < length lps")
    case False
    then show ?thesis
      by (simp add: underlyingChunks.simps[of E r b lps i acc n] underlyingChunks.simps[of E r b lps i acc 0])
  next
    case True
    then have lt: "length lps - (i + 10) < length lps - i" by arith
    let ?batch = "take 10 (drop i lps)"
    obtain es k where z: "underlyingChunk E r b ?batch 0 = (es, k)" by (cases "underlyingChunk E r b ?batch 0")
    then have zn: "underlyingChunk E r b ?batch n = (es, k + n)"
      using underlyingChunk_steady[OF s, of E ?batch n] by simp
    have ln: "underlyingChunks E r b lps i acc n = underlyingChunks E r b lps (i + 10) (acc @ es) (k + n)"
      using True zn by (simp add: underlyingChunks.simps[of E r b lps i acc n])
    have l0: "underlyingChunks E r b lps i acc 0 = underlyingChunks E r b lps (i + 10) (acc @ es) k"
      using True z by (simp add: underlyingChunks.simps[of E r b lps i acc 0])
    have i1: "underlyingChunks E r b lps (i + 10) (acc @ es) (k + n)
                = shiftBy (k + n) (underlyingChunks E r b lps (i + 10) (acc @ es) 0)"
      by (rule less[OF lt])
    have i0: "underlyingChunks E r b lps (i + 10) (acc @ es) k
                = shiftBy k (underlyingChunks E r b lps (i + 10) (acc @ es) 0)"
      by (rule less[OF lt])
    show ?thesis unfolding ln l0 i1 i0 by (simp add: shiftBy_shiftBy)
  qed
qed

lemma batchGetUnderlyingTokens_steady:
  assumes s: "steadyAt r b"
  shows "batchGetUnderlyingTokens E r lps b n = shiftBy n (batchGetUnderlyingTokens E r lps b 0)"
  unfolding batchGetUnderlyingTokens_def by (rule underlyingChunks_steady[OF s])

lemma getPosition_steady:
  assumes s: "steadyAt r b"
  shows "getPosition r trader token b n = shiftBy n (getPosition r trader token b 0)"
  using steadyAt_fields(7)[OF s, of n]
  by (simp add: getPosition_def split: sum.splits)

lemma positionsFallback_steady:
  assumes s: "steadyAt r b"
  shows "positionsFallback r trader b batch n = shiftBy n (positionsFallback r trader b batch 0)"
proof (induction batch arbitrary: n)
  case Nil
  show ?case by simp
next
  case (Cons token rest)
  obtain u k where z: "getPosition r trader token b 0 = (u, k)" by (cases "getPosition r trader token b 0")
  then have zn: "getPosition r trader token b n = (u, k + n)"
    using getPosition_steady[OF s, of trader token n] by simp
  obtain es m where y: "positionsFallback r trader b rest 0 = (es, m)"
    by (cases "positionsFallback r trader b rest 0")
  have yk: "positionsFallback r trader b rest k = (es, m + k)" using Cons[of k] y by simp
  have ykn: "positionsFallback r trader b rest (k + n) = (es, m + (k + n))" using Cons[of "k + n"] y by simp
  show ?case using z zn yk ykn by (simp add: add.assoc)
qed

lemma positionChunk_steady:
  assumes s: "steadyAt r b"
  shows "positionChunk E r vault trader b batch n = shiftBy n (positionChunk E r vault trader b batch 0)"
proof -
  let ?calls = "positionCalls vault trader batch"
  obtain x k where z: "batchCallWithRetry r ?calls 1 b 0 = (x, k)"
    by (cases "batchCallWithRetry r ?calls 1 b 0")
  then have zn: "batchCallWithRetry r ?calls 1 b n = (x, k + n)"
    using batchCallWithRetry_steady[OF s, of ?calls 1 n] by simp
  obtain es m where y: "positionsFallback r trader b batch 0 = (es, m)"
    by (cases "positionsFallback r trader b batch 0")
  have yk: "positionsFallback r trader b batch k = (es, m + k)"
    using positionsFallback_steady[OF s, of trader batch k] y by simp
  have ykn: "positionsFallback r trader b batch (k + n) = (es, m + k + n)"
    using positionsFallback_steady[OF s, of trader batch "k + n"] y by (simp add: add.assoc)
  show ?thesis using z zn yk ykn
    by (simp add: positionChunk_def split: sum.splits prod.splits bool.splits)
qed

lemma positionChunks_steady:
  assumes s: "steadyAt r b"
  shows "positionChunks E r vault trader b tokens i acc n
           = shiftBy n (positionChunks E r vault trader b tokens i acc 0)"
proof (induction "length tokens - i" arbitrary: i acc n rule: less_induct)
  case less
  show ?case
  proof (cases "i < length tokens")
    case False
    then show ?thesis
      by (simp add: positionChunks.simps[of E r vault trader b tokens i acc n]
            positionChunks.simps[of E r vault trader b tokens i acc 0])
  next
    case True
    then have lt: "length tokens - (i + 20) < length tokens - i" by arith
    let ?batch = "take 20 (drop i tokens)"
    obtain es k where z: "positionChunk E r vault trader b ?batch 0 = (es, k)"
      by (cases "positionChunk E r vault trader b ?batch 0")
    then have zn: "positionChunk E r vault trader b ?batch n = (es, k + n)"
      using positionChunk_steady[OF s, of E vault trader ?batch n] by simp
    have ln: "positionChunks E r vault trader b tokens i acc n
                = positionChunks E r vault trader b tokens (i + 20) (acc @ es) (k + n)"
      using True zn by (simp add: positionChunks.simps[of E r vault trader b tokens i acc n])
    have l0: "positionChunks E r vault trader b tokens i acc 0
                = positionChunks E r vault trader b tokens (i + 20) (acc @ es) k"
      using True z by (simp add: positionChunks.simps[of E r vault trader b tokens i acc 0])
    have i1: "positionChunks E r vault trader b tokens (i + 20) (acc @ es) (k + n)
                = shiftBy (k + n) (positionChunks E r vault trader b tokens (i + 20) (acc @ es) 0)"
      by (rule less[OF lt])
    have i0: "positionChunks E r vault trader b tokens (i + 20) (acc @ es) k
                = shiftBy k (positionChunks E r vault trader b tokens (i + 20) (acc @ es) 0)"
      by (rule less[OF lt])
    show ?thesis unfolding ln l0 i1 i0 by (simp add: shiftBy_shiftBy)
  qed
qed

lemma batchGetPositions_steady:
  assumes s: "steadyAt r b"
  shows "batchGetPositions E r vault trader tokens b n = shiftBy n (batchGetPositions E r vault trader tokens b 0)"
  unfolding batchGetPositions_def by (rule positionChunks_steady[OF s])

lemma listPmmPositions_steady:
  assumes s: "steadyAt r tb"
  shows "listPmmPositions E r clock a c tb n = shiftBy n (listPmmPositions E r clock a c tb 0)"
proof -
  obtain x k where g: "getAllLPTokens r tb 0 = (x, k)" by (cases "getAllLPTokens r tb 0")
  then have gn: "getAllLPTokens r tb n = (x, k + n)" using getAllLPTokens_steady[OF s, of n] by simp
  show ?thesis
  proof (cases x)
    case (Inl message)
    then show ?thesis using g gn by (simp add: listPmmPositions_def split: option.splits)
  next
    case (Inr lpTokens)
    obtain td k2 where u: "batchGetUnderlyingTokens E r lpTokens tb 0 = (td, k2)"
      by (cases "batchGetUnderlyingTokens E r lpTokens tb 0")
    have uk: "batchGetUnderlyingTokens E r lpTokens tb k = (td, k2 + k)"
      using batchGetUnderlyingTokens_steady[OF s, of E lpTokens k] u by simp
    have ukn: "batchGetUnderlyingTokens E r lpTokens tb (k + n) = (td, k2 + k + n)"
      using batchGetUnderlyingTokens_steady[OF s, of E lpTokens "k + n"] u by (simp add: add.assoc)
    have p: "\<And>vault. batchGetPositions E r vault a (map underlyingAddress td) tb (k2 + k + n)
               = shiftBy n (batchGetPositions E r vault a (map underlyingAddress td) tb (k2 + k))"
    proof -
      fix vault
      show "batchGetPositions E r vault a (map underlyingAddress td) tb (k2 + k + n)
               = shiftBy n (batchGetPositions E r vault a (map underlyingAddress td) tb (k2 + k))"
        using batchGetPositions_steady[OF s, of E vault a "map underlyingAddress td" "k2 + k + n"]
              batchGetPositions_steady[OF s, of E vault a "map underlyingAddress td" "k2 + k"]
        by (simp add: shiftBy_shiftBy)
    qed
    show ?thesis using g gn Inr uk ukn p
      by (simp add: listPmmPositions_def shiftBy_def split: option.splits prod.splits sum.splits)
  qed
qed

lemma listPmmPositions_clock:
  "listPmmPositions E r clock a c tb n =
     (case listPmmPositions E r (\<lambda>k. 0) a c tb n of
        (Inl e, n') \<Rightarrow> (Inl e, n')
      | (Inr rep, n') \<Rightarrow> (Inr (rep\<lparr>summary := (summary rep)\<lparr>fetchTime := clock 1 - clock 0\<rparr>\<rparr>), n'))"
  by (simp add: listPmmPositions_def split: option.splits prod.splits sum.splits)

lemma steadyAt_demoRemote: "steadyAt demoRemote b"
  by (simp add: steadyAt_def demoRemote_def timeoutRemote_def)

lemma demo_second_run:
  "listPmmPositions stubEthers demoRemote laterClock ''0xB0B'' 56 None 7 = (Inr laterReport, 14)"
proof -
  have "listPmmPositions stubEthers demoRemote laterClock ''0xB0B'' 56 None 7
          = shiftBy 7 (listPmmPositions stubEthers demoRemote laterClock ''0xB0B'' 56 None 0)"
    by (rule listPmmPositions_steady[OF steadyAt_demoRemote])
  then show ?thesis
    by (simp add: demo_run_clock[of laterClock] demoReport_def laterReport_def laterClock_def)
qed

text \<open>
  Claim C7, as amended. A run of \<open>listPmmPositions\<close> is followed by a second run of the
  same fetcher for the same owner, network and pinned height. The second run starts at
  the request number the first one ended with, and it faces the same endpoint: a provider
  that passed its probe in the first run is memoized, which \<open>probe = None\<close> stands for as
  well, and a provider whose probe failed is probed again. If the remote state at that
  height does not change between and during the runs (\<open>steadyAt\<close>), the two results
  agree in every field except \<open>summary.fetchTime\<close>, which in each report is the elapsed
  wall-clock time of its own run (the difference of two \<open>Date.now()\<close> readings); a run
  that throws is followed by a run that throws the same error. So the two results are
  identical exactly when the first run threw or the two runs took the same time. As
  stated (byte-identical in every field of the summary) the claim fails, as the two runs
  compared after the theorem show.
\<close>

theorem reports_agree_up_to_fetchTime:
  assumes "steadyAt r tb"
    and "listPmmPositions E r clock1 a c tb n = (first, n1)"
    and "listPmmPositions E r clock2 a c tb n1 = (second, n2)"
  shows "withoutFetchTime second = withoutFetchTime first
     \<and> (case first of
          Inr rep \<Rightarrow> fetchTime (summary rep) = clock1 1 - clock1 0
        | Inl e \<Rightarrow> second = Inl e)
     \<and> (case second of
          Inr rep \<Rightarrow> fetchTime (summary rep) = clock2 1 - clock2 0
        | Inl e \<Rightarrow> first = Inl e)
     \<and> (second = first) = (isl first \<or> clock2 1 - clock2 0 = clock1 1 - clock1 0)"
proof -
  obtain res k where z: "listPmmPositions E r (\<lambda>k. 0) a c tb 0 = (res, k)"
    by (cases "listPmmPositions E r (\<lambda>k. 0) a c tb 0")
  have s1: "listPmmPositions E r clock1 a c tb n = shiftBy n (listPmmPositions E r clock1 a c tb 0)"
    by (rule listPmmPositions_steady[OF assms(1)])
  have s2: "listPmmPositions E r clock2 a c tb n1 = shiftBy n1 (listPmmPositions E r clock2 a c tb 0)"
    by (rule listPmmPositions_steady[OF assms(1)])
  show ?thesis
  proof (cases res)
    case (Inl e)
    have "first = Inl e" using assms(2) s1 z Inl by (simp add: listPmmPositions_clock[of E r clock1])
    moreover have "second = Inl e" using assms(3) s2 z Inl by (simp add: listPmmPositions_clock[of E r clock2])
    ultimately show ?thesis by simp
  next
    case (Inr rep)
    have f: "first = Inr (rep\<lparr>summary := (summary rep)\<lparr>fetchTime := clock1 1 - clock1 0\<rparr>\<rparr>)"
      using assms(2) s1 z Inr by (simp add: listPmmPositions_clock[of E r clock1])
    have g: "second = Inr (rep\<lparr>summary := (summary rep)\<lparr>fetchTime := clock2 1 - clock2 0\<rparr>\<rparr>)"
      using assms(3) s2 z Inr by (simp add: listPmmPositions_clock[of E r clock2])
    have e: "(rep\<lparr>summary := (summary rep)\<lparr>fetchTime := clock2 1 - clock2 0\<rparr>\<rparr>
              = rep\<lparr>summary := (summary rep)\<lparr>fetchTime := clock1 1 - clock1 0\<rparr>\<rparr>)
             = (clock2 1 - clock2 0 = clock1 1 - clock1 0)"
    proof
      assume "rep\<lparr>summary := (summary rep)\<lparr>fetchTime := clock2 1 - clock2 0\<rparr>\<rparr>
              = rep\<lparr>summary := (summary rep)\<lparr>fetchTime := clock1 1 - clock1 0\<rparr>\<rparr>"
      then have "fetchTime (summary (rep\<lparr>summary := (summary rep)\<lparr>fetchTime := clock2 1 - clock2 0\<rparr>\<rparr>))
              = fetchTime (summary (rep\<lparr>summary := (summary rep)\<lparr>fetchTime := clock1 1 - clock1 0\<rparr>\<rparr>))"
        by (rule arg_cong)
      then show "clock2 1 - clock2 0 = clock1 1 - clock1 0" by simp
    next
      assume "clock2 1 - clock2 0 = clock1 1 - clock1 0"
      then show "rep\<lparr>summary := (summary rep)\<lparr>fetchTime := clock2 1 - clock2 0\<rparr>\<rparr>
              = rep\<lparr>summary := (summary rep)\<lparr>fetchTime := clock1 1 - clock1 0\<rparr>\<rparr>" by simp
    qed
    show ?thesis unfolding f g using e by (simp add: withoutFetchTime_def)
  qed
qed

theorem reports_agree_up_to_fetchTime_witness:
  "steadyAt demoRemote None
   \<and> listPmmPositions stubEthers demoRemote demoClock ''0xB0B'' 56 None 0 = (Inr demoReport, 7)
   \<and> listPmmPositions stubEthers demoRemote laterClock ''0xB0B'' 56 None 7 = (Inr laterReport, 14)
   \<and> withoutFetchTime (Inr laterReport) = withoutFetchTime (Inr demoReport)
   \<and> fetchTime (summary demoReport) = demoClock 1 - demoClock 0
   \<and> fetchTime (summary laterReport) = laterClock 1 - laterClock 0"
proof -
  note T = reports_agree_up_to_fetchTime[OF steadyAt_demoRemote demo_run demo_second_run]
  have a: "withoutFetchTime (Inr laterReport) = withoutFetchTime (Inr demoReport)"
    using T by (rule conjunct1)
  have b: "fetchTime (summary demoReport) = demoClock 1 - demoClock 0"
    using T by simp
  have c: "fetchTime (summary laterReport) = laterClock 1 - laterClock 0"
    using T by simp
  show ?thesis using steadyAt_demoRemote[of None] demo_run demo_second_run a b c by simp
qed

text \<open>
  The claim as stated fails on two runs in a row against an endpoint that never changes:
  the first takes 250 ms, the second 400 ms, and the two reports differ in
  \<open>summary.fetchTime\<close>.
\<close>

theorem reports_differ_in_fetchTime:
  "steadyAt demoRemote None
   \<and> listPmmPositions stubEthers demoRemote demoClock ''0xB0B'' 56 None 0 = (Inr demoReport, 7)
   \<and> listPmmPositions stubEthers demoRemote laterClock ''0xB0B'' 56 None 7 = (Inr laterReport, 14)
   \<and> laterReport \<noteq> demoReport
   \<and> fetchTime (summary demoReport) = 250
   \<and> fetchTime (summary laterReport) = 400"
proof -
  have "fetchTime (summary laterReport) \<noteq> fetchTime (summary demoReport)"
    by (simp add: laterReport_def demoReport_def)
  then have "laterReport \<noteq> demoReport" by auto
  then show ?thesis using steadyAt_demoRemote[of None] demo_run demo_second_run
    by (simp add: laterReport_def demoReport_def)
qed

section \<open>The formatter is exact\<close>

declare padWhole.simps [simp del]

lemma isDigits_simps [simp]:
  "isDigits []" "isDigits (c # cs) = (digitVal c \<noteq> None \<and> isDigits cs)"
  "isDigits (xs @ ys) = (isDigits xs \<and> isDigits ys)" "isDigits (rev xs) = isDigits xs"
  by (auto simp: isDigits_def)

lemma isDigits_take_drop: "isDigits xs \<Longrightarrow> isDigits (take k xs) \<and> isDigits (drop k xs)"
  by (metis append_take_drop_id isDigits_simps(3))

lemma digitVal_zero: "digitVal (CHR ''0'') = Some 0"
  by (simp add: digitVal_def)

lemma digitVal_point: "digitVal (CHR ''.'') = None"
  by (simp add: digitVal_def)

lemma digitVal_minus: "digitVal (CHR ''-'') = None"
  by (simp add: digitVal_def)

lemma isDigits_replicate: "isDigits (replicate z (CHR ''0''))"
  by (induction z) (simp_all add: digitVal_zero)

lemma isDigits_natToString: "isDigits (natToString n)"
proof (induction n rule: natToString.induct)
  case (1 n)
  show ?case
  proof (cases "n < 10")
    case True
    then show ?thesis by (simp add: natToString.simps[of n] digitVal_digitChar)
  next
    case False
    have "digitVal (digitChar (n mod 10)) = Some (n mod 10)" by (rule digitVal_digitChar) simp
    then show ?thesis using 1[OF False] False by (simp add: natToString.simps[of n])
  qed
qed

lemma parseDigits_shape:
  "isDigits xs \<Longrightarrow> \<exists>v. \<forall>acc. parseDigits xs acc = Some (acc * 10 ^ length xs + v)"
proof (induction xs)
  case Nil
  then show ?case by simp
next
  case (Cons c cs)
  then obtain k where k: "digitVal c = Some k" by auto
  from Cons obtain v where v: "\<forall>acc. parseDigits cs acc = Some (acc * 10 ^ length cs + v)" by auto
  have "\<forall>acc. parseDigits (c # cs) acc = Some (acc * 10 ^ length (c # cs) + (k * 10 ^ length cs + v))"
    using k v by (simp add: algebra_simps)
  then show ?case by blast
qed

lemma parseDigits_dval:
  "isDigits xs \<Longrightarrow> parseDigits xs acc = Some (acc * 10 ^ length xs + dval xs)"
proof -
  assume "isDigits xs"
  from parseDigits_shape[OF this] obtain v where v: "\<forall>acc. parseDigits xs acc = Some (acc * 10 ^ length xs + v)"
    by blast
  then have "parseDigits xs 0 = Some v" by simp
  then have "dval xs = v" by (simp add: dval_def)
  then show ?thesis using v by simp
qed

lemma dval_append:
  "isDigits xs \<Longrightarrow> isDigits ys \<Longrightarrow> dval (xs @ ys) = dval xs * 10 ^ length ys + dval ys"
proof -
  assume x: "isDigits xs" and y: "isDigits ys"
  have "parseDigits (xs @ ys) 0 = Some (dval xs * 10 ^ length ys + dval ys)"
    using parseDigits_dval[OF x, of 0] parseDigits_dval[OF y, of "dval xs"]
    by (simp add: parseDigits_append)
  then show ?thesis by (simp add: dval_def)
qed

lemma dval_replicate: "dval (replicate z (CHR ''0'')) = 0"
proof (induction z)
  case 0
  then show ?case by (simp add: dval_def)
next
  case (Suc z)
  have "dval ([CHR ''0''] @ replicate z (CHR ''0'')) = dval [CHR ''0''] * 10 ^ length (replicate z (CHR ''0'')) + dval (replicate z (CHR ''0''))"
    by (rule dval_append) (simp_all add: digitVal_zero isDigits_replicate)
  then show ?case using Suc by (simp add: dval_def digitVal_zero)
qed

lemma dval_zeros_front: "isDigits w \<Longrightarrow> dval (replicate z (CHR ''0'') @ w) = dval w"
  by (simp add: dval_append isDigits_replicate dval_replicate)

lemma dval_zeros_back: "isDigits w \<Longrightarrow> dval (w @ replicate z (CHR ''0'')) = dval w * 10 ^ z"
  by (simp add: dval_append isDigits_replicate dval_replicate)

lemma dval_natToString: "dval (natToString n) = n"
  by (simp add: dval_def parseDigits_natToString)

lemma padWhole_shape:
  "\<exists>z. padWhole str d = replicate z (CHR ''0'') @ str \<and> d < length (padWhole str d)"
proof (induction str d rule: padWhole.induct)
  case (1 str d)
  show ?case
  proof (cases "length str \<le> d")
    case False
    then have "padWhole str d = replicate 0 (CHR ''0'') @ str \<and> d < length (padWhole str d)"
      by (simp add: padWhole.simps[of str d])
    then show ?thesis by blast
  next
    case True
    from 1[OF True] obtain z where z: "padWhole (Zeros @ str) d = replicate z (CHR ''0'') @ Zeros @ str"
      and l: "d < length (padWhole (Zeros @ str) d)" by blast
    have Z4: "Zeros = replicate 4 (CHR ''0'')" by (simp add: Zeros_def numeral_eq_Suc)
    have "replicate z (CHR ''0'') @ Zeros = replicate (z + 4) (CHR ''0'')"
      unfolding Z4 by (rule replicate_add[symmetric])
    then have "padWhole str d = replicate (z + 4) (CHR ''0'') @ str \<and> d < length (padWhole str d)"
      using True z l by (simp add: padWhole.simps[of str d])
    then show ?thesis by blast
  qed
qed

lemma stripZeros_shape:
  "isDigits w \<Longrightarrow> w \<noteq> [] \<Longrightarrow>
   \<exists>z w'. w = replicate z (CHR ''0'') @ w' \<and> w' \<noteq> [] \<and> (length w' = 1 \<or> hd w' \<noteq> CHR ''0'')
          \<and> stripZeros (w @ CHR ''.'' # t) = w' @ CHR ''.'' # t"
proof (induction w)
  case Nil
  then show ?case by simp
next
  case (Cons c ws)
  show ?case
  proof (cases ws)
    case Nil
    then have "c # ws = replicate 0 (CHR ''0'') @ [c] \<and> [c] \<noteq> [] \<and> (length [c] = 1 \<or> hd [c] \<noteq> CHR ''0'')
        \<and> stripZeros ((c # ws) @ CHR ''.'' # t) = [c] @ CHR ''.'' # t"
      by simp
    then show ?thesis by blast
  next
    case (Cons c' ws')
    have c': "c' \<noteq> CHR ''.''" using Cons.prems(1) Cons digitVal_point by auto
    show ?thesis
    proof (cases "c = CHR ''0''")
      case False
      then have "c # ws = replicate 0 (CHR ''0'') @ (c # ws) \<and> c # ws \<noteq> []
          \<and> (length (c # ws) = 1 \<or> hd (c # ws) \<noteq> CHR ''0'')
          \<and> stripZeros ((c # ws) @ CHR ''.'' # t) = (c # ws) @ CHR ''.'' # t"
        using Cons by simp
      then show ?thesis by blast
    next
      case True
      have "isDigits ws" "ws \<noteq> []" using Cons.prems(1) Cons by simp_all
      from Cons.IH[OF this] obtain z w' where
        w: "ws = replicate z (CHR ''0'') @ w'" "w' \<noteq> []" "length w' = 1 \<or> hd w' \<noteq> CHR ''0''"
           "stripZeros (ws @ CHR ''.'' # t) = w' @ CHR ''.'' # t"
        by blast
      have step: "stripZeros ((c # ws) @ CHR ''.'' # t) = stripZeros (ws @ CHR ''.'' # t)"
        using True c' Cons by simp
      have "c # ws = replicate (Suc z) (CHR ''0'') @ w'" using True w(1) by simp
      then have "c # ws = replicate (Suc z) (CHR ''0'') @ w' \<and> w' \<noteq> []
          \<and> (length w' = 1 \<or> hd w' \<noteq> CHR ''0'')
          \<and> stripZeros ((c # ws) @ CHR ''.'' # t) = w' @ CHR ''.'' # t"
        using w(2,3,4) step by simp
      then show ?thesis by blast
    qed
  qed
qed

lemma strip_both:
  assumes wd: "isDigits whole" and wn: "whole \<noteq> []" and fd: "isDigits frac" and fn: "frac \<noteq> []"
  shows "\<exists>w f z. rev (stripZeros (rev (stripZeros (whole @ ''.'' @ frac)))) = w @ CHR ''.'' # f
          \<and> isDigits w \<and> w \<noteq> [] \<and> isDigits f \<and> f \<noteq> []
          \<and> (length w = 1 \<or> hd w \<noteq> CHR ''0'') \<and> (length f = 1 \<or> last f \<noteq> CHR ''0'')
          \<and> dval w = dval whole \<and> length f + z = length frac \<and> dval frac = dval f * 10 ^ z"
proof -
  from stripZeros_shape[OF wd wn, of frac] obtain z1 w where
    w: "whole = replicate z1 (CHR ''0'') @ w" "w \<noteq> []" "length w = 1 \<or> hd w \<noteq> CHR ''0''"
       "stripZeros (whole @ CHR ''.'' # frac) = w @ CHR ''.'' # frac" by blast
  have wdig: "isDigits w" using wd unfolding w(1) by simp
  have wv: "dval w = dval whole" unfolding w(1) using dval_zeros_front[OF wdig, of z1] by simp
  have rfd: "isDigits (rev frac)" using fd by simp
  have rfn: "rev frac \<noteq> []" using fn by simp
  from stripZeros_shape[OF rfd rfn, of "rev w"] obtain z2 g where
    g: "rev frac = replicate z2 (CHR ''0'') @ g" "g \<noteq> []" "length g = 1 \<or> hd g \<noteq> CHR ''0''"
       "stripZeros (rev frac @ CHR ''.'' # rev w) = g @ CHR ''.'' # rev w" by blast
  have fr: "frac = rev g @ replicate z2 (CHR ''0'')"
  proof -
    have "frac = rev (rev frac)" by simp
    also have "\<dots> = rev (replicate z2 (CHR ''0'') @ g)" by (simp only: g(1))
    also have "\<dots> = rev g @ replicate z2 (CHR ''0'')" by simp
    finally show ?thesis .
  qed
  have gdig: "isDigits g" using rfd unfolding g(1) by simp
  then have fdig: "isDigits (rev g)" by simp
  have flen: "length (rev g) + z2 = length frac"
  proof -
    have "length frac = length (rev g @ replicate z2 (CHR ''0''))" by (rule arg_cong[OF fr])
    then show ?thesis by simp
  qed
  have fv: "dval frac = dval (rev g) * 10 ^ z2"
  proof -
    have "dval frac = dval (rev g @ replicate z2 (CHR ''0''))" by (rule arg_cong[OF fr])
    then show ?thesis using dval_zeros_back[OF fdig, of z2] by simp
  qed
  have lastg: "length (rev g) = 1 \<or> last (rev g) \<noteq> CHR ''0''"
    using g(2,3) by (simp add: last_rev)
  have s1: "stripZeros (whole @ ''.'' @ frac) = w @ CHR ''.'' # frac" using w(4) by simp
  have s2: "rev (w @ CHR ''.'' # frac) = rev frac @ CHR ''.'' # rev w" by simp
  have s3: "rev (g @ CHR ''.'' # rev w) = w @ CHR ''.'' # rev g" by simp
  have res: "rev (stripZeros (rev (stripZeros (whole @ ''.'' @ frac)))) = w @ CHR ''.'' # rev g"
    by (simp only: s1 s2 g(4) s3)
  have "rev g \<noteq> []" using g(2) by simp
  then show ?thesis using res wdig w(2,3) fdig lastg wv flen fv by blast
qed

lemma fixedToString_shape:
  assumes d: "0 < d"
  shows "\<exists>w f. fixedToString v d = (if v < 0 then ''-'' else []) @ w @ CHR ''.'' # f
          \<and> isDigits w \<and> w \<noteq> [] \<and> isDigits f \<and> f \<noteq> [] \<and> length f \<le> d
          \<and> (length w = 1 \<or> hd w \<noteq> CHR ''0'') \<and> (length f = 1 \<or> last f \<noteq> CHR ''0'')
          \<and> dval w * 10 ^ d + dval f * 10 ^ (d - length f) = nat \<bar>v\<bar>"
proof -
  define a where "a = nat \<bar>v\<bar>"
  define padded where "padded = padWhole (natToString a) d"
  define index where "index = length padded - d"
  define whole where "whole = take index padded"
  define frac where "frac = drop index padded"
  from padWhole_shape[of "natToString a" d] obtain z where pz: "padded = replicate z (CHR ''0'') @ natToString a"
    and pl: "d < length padded" unfolding padded_def by blast
  have pd: "isDigits padded" unfolding pz by (simp add: isDigits_replicate isDigits_natToString)
  have pv: "dval padded = a" unfolding pz by (simp add: dval_zeros_front isDigits_natToString dval_natToString)
  have wd: "isDigits whole" and fd: "isDigits frac"
    using isDigits_take_drop[OF pd, of index] unfolding whole_def frac_def by simp_all
  have ip: "0 < index" "index \<le> length padded" using pl unfolding index_def by simp_all
  have wn: "whole \<noteq> []" using ip pl unfolding whole_def by (auto simp: take_eq_Nil)
  have fl: "length frac = d" using pl unfolding frac_def index_def by simp
  then have fn: "frac \<noteq> []" using d by auto
  have "padded = whole @ frac" unfolding whole_def frac_def by simp
  then have "dval padded = dval (whole @ frac)" by (rule arg_cong)
  then have split: "dval whole * 10 ^ d + dval frac = a"
    using dval_append[OF wd fd] fl pv by simp
  from strip_both[OF wd wn fd fn] obtain w f z2 where
    res: "rev (stripZeros (rev (stripZeros (whole @ ''.'' @ frac)))) = w @ CHR ''.'' # f"
    and wf: "isDigits w" "w \<noteq> []" "isDigits f" "f \<noteq> []"
    and tr: "length w = 1 \<or> hd w \<noteq> CHR ''0''" "length f = 1 \<or> last f \<noteq> CHR ''0''"
    and vals: "dval w = dval whole" "length f + z2 = length frac" "dval frac = dval f * 10 ^ z2"
    by blast
  have z2: "d - length f = z2" using vals(2) fl by simp
  have dz: "(d = 0) = False" using d by simp
  have unf: "fixedToString v d = (if v < 0 then ''-'' else [])
       @ rev (stripZeros (rev (stripZeros (whole @ ''.'' @ frac))))"
    unfolding fixedToString_def Let_def whole_def frac_def index_def padded_def a_def
    by (simp only: dz if_False)
  have "fixedToString v d = (if v < 0 then ''-'' else []) @ w @ CHR ''.'' # f"
    unfolding unf res ..
  moreover have "dval w * 10 ^ d + dval f * 10 ^ (d - length f) = nat \<bar>v\<bar>"
    using split vals(1,3) z2 a_def by simp
  moreover have "length f \<le> d" using vals(2) fl by simp
  ultimately show ?thesis using wf tr by blast
qed

lemma isDigits_no_point: "isDigits w \<Longrightarrow> CHR ''.'' \<notin> set w"
  using digitVal_point by (auto simp: isDigits_def list_all_iff)

lemma isDigits_hd: "isDigits w \<Longrightarrow> w \<noteq> [] \<Longrightarrow> hd w \<noteq> CHR ''-''"
  using digitVal_minus by (cases w) auto

lemma splitPoint_pointed: "isDigits w \<Longrightarrow> splitPoint (w @ CHR ''.'' # f) = (w, f)"
proof -
  assume "isDigits w"
  then have np: "\<forall>c \<in> set w. c \<noteq> CHR ''.''" using isDigits_no_point by auto
  then have "takeWhile (\<lambda>c. c \<noteq> CHR ''.'') (w @ CHR ''.'' # f) = w"
    by (simp add: takeWhile_append2)
  moreover have "dropWhile (\<lambda>c. c \<noteq> CHR ''.'') (w @ CHR ''.'' # f) = CHR ''.'' # f"
    using np by (simp add: dropWhile_append2)
  ultimately show ?thesis unfolding splitPoint_def by simp
qed

lemma splitPoint_digits: "isDigits w \<Longrightarrow> splitPoint w = (w, [])"
proof -
  assume "isDigits w"
  then have np: "\<forall>c \<in> set w. c \<noteq> CHR ''.''" using isDigits_no_point by auto
  then have tw: "takeWhile (\<lambda>c. c \<noteq> CHR ''.'') w = w" and dw: "dropWhile (\<lambda>c. c \<noteq> CHR ''.'') w = []"
    by (simp_all add: takeWhile_eq_all_conv dropWhile_eq_Nil_conv)
  show ?thesis unfolding splitPoint_def tw dw by simp
qed

lemma parseMagnitude_pointed:
  "isDigits w \<Longrightarrow> w \<noteq> [] \<Longrightarrow> isDigits f \<Longrightarrow> length f \<le> d \<Longrightarrow>
   parseMagnitude (w @ CHR ''.'' # f) d = Some (dval w * 10 ^ d + dval f * 10 ^ (d - length f))"
  by (simp add: parseMagnitude_def splitPoint_pointed parseDigits_dval)

lemma parseMagnitude_digits:
  "isDigits w \<Longrightarrow> w \<noteq> [] \<Longrightarrow> parseMagnitude w d = Some (dval w * 10 ^ d)"
  by (simp add: parseMagnitude_def splitPoint_digits parseDigits_dval)

lemma parse_spec_fixedToString: "parse_spec (fixedToString v d) d = Some v"
proof (cases "d = 0")
  case True
  let ?s = "natToString (nat \<bar>v\<bar>)"
  have dg: "isDigits ?s" by (rule isDigits_natToString)
  have ne: "?s \<noteq> []" using natToString_hd[of "nat \<bar>v\<bar>"] by auto
  have pm: "parseMagnitude ?s 0 = Some (nat \<bar>v\<bar>)"
    using parseMagnitude_digits[OF dg ne, of 0] by (simp add: dval_natToString)
  show ?thesis
  proof (cases "v < 0")
    case T: True
    then show ?thesis using True pm by (simp add: parse_spec_def fixedToString_def)
  next
    case False
    then show ?thesis using True pm ne isDigits_hd[OF dg ne]
      by (simp add: parse_spec_def fixedToString_def)
  qed
next
  case False
  then have "0 < d" by simp
  from fixedToString_shape[OF this, of v] obtain w f where
    s: "fixedToString v d = (if v < 0 then ''-'' else []) @ w @ CHR ''.'' # f"
    and w: "isDigits w" "w \<noteq> []" and f: "isDigits f" "length f \<le> d"
    and val: "dval w * 10 ^ d + dval f * 10 ^ (d - length f) = nat \<bar>v\<bar>" by blast
  have pm: "parseMagnitude (w @ CHR ''.'' # f) d = Some (nat \<bar>v\<bar>)"
    using parseMagnitude_pointed[OF w f] val by simp
  show ?thesis
  proof (cases "v < 0")
    case True
    then show ?thesis using s pm by (simp add: parse_spec_def)
  next
    case F: False
    have "hd (w @ CHR ''.'' # f) \<noteq> CHR ''-''" using isDigits_hd[OF w] w(2) by simp
    then show ?thesis using F s pm w(2) by (simp add: parse_spec_def)
  qed
qed

text \<open>A text of digits is determined by its length and the number it denotes.\<close>

lemma digitVal_lt: "digitVal c = Some k \<Longrightarrow> k < 10"
  by (auto simp: digitVal_def split: if_splits)

lemma digitVal_inj: "digitVal c = Some k \<Longrightarrow> digitVal c' = Some k \<Longrightarrow> c = c'"
proof -
  assume a: "digitVal c = Some k" and b: "digitVal c' = Some k"
  from a have "(of_char c :: nat) = k + 48" by (auto simp: digitVal_def split: if_splits)
  moreover from b have "(of_char c' :: nat) = k + 48" by (auto simp: digitVal_def split: if_splits)
  ultimately have "(of_char c :: nat) = of_char c'" by simp
  then show ?thesis by simp
qed

lemma dval_Cons:
  "digitVal c = Some k \<Longrightarrow> isDigits cs \<Longrightarrow> dval (c # cs) = k * 10 ^ length cs + dval cs"
proof -
  assume k: "digitVal c = Some k" and cs: "isDigits cs"
  have c: "isDigits [c]" using k by simp
  have "dval [c] = k" using k by (simp add: dval_def)
  then show ?thesis using dval_append[OF c cs] by simp
qed

lemma dval_lt: "isDigits xs \<Longrightarrow> dval xs < 10 ^ length xs"
proof (induction xs)
  case Nil
  show ?case by (simp add: dval_def)
next
  case (Cons c cs)
  then obtain k where k: "digitVal c = Some k" by auto
  have cs: "isDigits cs" using Cons.prems by simp
  have lt: "dval cs < 10 ^ length cs" using Cons.IH[OF cs] .
  have "k * 10 ^ length cs + dval cs < (k + 1) * 10 ^ length cs" using lt by simp
  also have "\<dots> \<le> 10 * 10 ^ length cs" using digitVal_lt[OF k] by simp
  finally show ?case using dval_Cons[OF k cs] by simp
qed

lemma split_digits:
  fixes k k' a a' P :: nat
  assumes "k * P + a = k' * P + a'" and "a < P" and "a' < P"
  shows "k = k' \<and> a = a'"
proof -
  have "(k * P + a) div P = k" using assms(2) by simp
  moreover have "(k' * P + a') div P = k'" using assms(3) by simp
  ultimately have "k = k'" using assms(1) by simp
  then show ?thesis using assms(1) by simp
qed

lemma digits_inj:
  "isDigits xs \<Longrightarrow> isDigits ys \<Longrightarrow> length xs = length ys \<Longrightarrow> dval xs = dval ys \<Longrightarrow> xs = ys"
proof (induction xs arbitrary: ys)
  case Nil
  then show ?case by simp
next
  case (Cons c cs)
  then obtain c' cs' where ys: "ys = c' # cs'" by (cases ys) auto
  from Cons.prems(1) obtain k where k: "digitVal c = Some k" by auto
  from Cons.prems(2) ys obtain k' where k': "digitVal c' = Some k'" by auto
  have cs: "isDigits cs" using Cons.prems(1) by simp
  have cs': "isDigits cs'" using Cons.prems(2) ys by simp
  have len: "length cs = length cs'" using Cons.prems(3) ys by simp
  have "k * 10 ^ length cs + dval cs = k' * 10 ^ length cs + dval cs'"
    using Cons.prems(4) ys dval_Cons[OF k cs] dval_Cons[OF k' cs'] len by simp
  from split_digits[OF this dval_lt[OF cs]] dval_lt[OF cs'] len
  have e: "k = k'" "dval cs = dval cs'" by simp_all
  have "c = c'" using k k' e(1) digitVal_inj by blast
  moreover have "cs = cs'" using Cons.IH[OF cs cs' len e(2)] .
  ultimately show ?case using ys by simp
qed

text \<open>
  So a whole part without a leading zero is determined by its number, and a fraction
  without a trailing zero by its number at the scale.
\<close>

lemma whole_longer:
  assumes w: "isDigits w" and w': "isDigits w'"
    and t': "length w' = 1 \<or> hd w' \<noteq> CHR ''0''" and n: "w \<noteq> []"
    and v: "dval w = dval w'" and l: "length w \<le> length w'"
  shows "w = w'"
proof -
  define z where "z = length w' - length w"
  have "isDigits (replicate z (CHR ''0'') @ w)" using w by (simp add: isDigits_replicate)
  moreover have "length (replicate z (CHR ''0'') @ w) = length w'" using l by (simp add: z_def)
  moreover have "dval (replicate z (CHR ''0'') @ w) = dval w'" using dval_zeros_front[OF w, of z] v by simp
  ultimately have e: "replicate z (CHR ''0'') @ w = w'" using digits_inj w' by blast
  show ?thesis
  proof (cases z)
    case 0
    then show ?thesis using e by simp
  next
    case (Suc y)
    then have "hd w' = CHR ''0''" using e by auto
    moreover have "1 < length w'" using e Suc n by (cases w) auto
    ultimately show ?thesis using t' by simp
  qed
qed

lemma whole_unique:
  assumes "isDigits w" and "isDigits w'" and "w \<noteq> []" and "w' \<noteq> []"
    and "length w = 1 \<or> hd w \<noteq> CHR ''0''" and "length w' = 1 \<or> hd w' \<noteq> CHR ''0''"
    and "dval w = dval w'"
  shows "w = w'"
proof (cases "length w \<le> length w'")
  case True
  then show ?thesis using whole_longer[of w w'] assms by simp
next
  case False
  then have "length w' \<le> length w" by simp
  then have "w' = w" using whole_longer[of w' w] assms by simp
  then show ?thesis by simp
qed

lemma fraction_longer:
  assumes f: "isDigits f" and f': "isDigits f'"
    and t': "length f' = 1 \<or> last f' \<noteq> CHR ''0''" and n: "f \<noteq> []"
    and lf: "length f \<le> length f'" and ld: "length f' \<le> d"
    and v: "dval f * 10 ^ (d - length f) = dval f' * 10 ^ (d - length f')"
  shows "f = f'"
proof -
  define z where "z = length f' - length f"
  define y where "y = d - length f'"
  have dz: "d - length f = z + y" using lf ld by (simp add: z_def y_def)
  have a: "isDigits (f @ replicate z (CHR ''0''))" using f by (simp add: isDigits_replicate)
  have la: "length (f @ replicate z (CHR ''0'')) = length f'" using lf by (simp add: z_def)
  have "dval (f @ replicate z (CHR ''0'')) * 10 ^ y = dval f' * 10 ^ y"
    using dval_zeros_back[OF f, of z] v dz by (simp add: y_def power_add mult.assoc)
  then have "dval (f @ replicate z (CHR ''0'')) = dval f'" by simp
  then have e: "f @ replicate z (CHR ''0'') = f'" using digits_inj[OF a f' la] by simp
  show ?thesis
  proof (cases z)
    case 0
    then show ?thesis using e by simp
  next
    case (Suc x)
    then have "last f' = CHR ''0''" using e by auto
    moreover have "1 < length f'" using e Suc n by (cases f) auto
    ultimately show ?thesis using t' by simp
  qed
qed

lemma fraction_unique:
  assumes "isDigits f" and "isDigits f'" and "f \<noteq> []" and "f' \<noteq> []"
    and "length f = 1 \<or> last f \<noteq> CHR ''0''" and "length f' = 1 \<or> last f' \<noteq> CHR ''0''"
    and "length f \<le> d" and "length f' \<le> d"
    and "dval f * 10 ^ (d - length f) = dval f' * 10 ^ (d - length f')"
  shows "f = f'"
proof (cases "length f \<le> length f'")
  case True
  then show ?thesis using fraction_longer[of f f' d] assms by simp
next
  case False
  then have "length f' \<le> length f" by simp
  then have "f' = f" using fraction_longer[of f' f d] assms by simp
  then show ?thesis by simp
qed

lemma fraction_bound:
  assumes f: "isDigits f" and l: "length f \<le> d"
  shows "dval f * 10 ^ (d - length f) < 10 ^ d"
proof -
  have "dval f * 10 ^ (d - length f) < 10 ^ length f * 10 ^ (d - length f)"
    using dval_lt[OF f] by simp
  also have "\<dots> = 10 ^ d" using l by (simp add: power_add[symmetric])
  finally show ?thesis .
qed

lemma pointed_unique:
  assumes w: "isDigits w" "w \<noteq> []" "length w = 1 \<or> hd w \<noteq> CHR ''0''"
    and f: "isDigits f" "f \<noteq> []" "length f = 1 \<or> last f \<noteq> CHR ''0''" "length f \<le> d"
    and w': "isDigits w'" "w' \<noteq> []" "length w' = 1 \<or> hd w' \<noteq> CHR ''0''"
    and f': "isDigits f'" "f' \<noteq> []" "length f' = 1 \<or> last f' \<noteq> CHR ''0''" "length f' \<le> d"
    and v: "dval w * 10 ^ d + dval f * 10 ^ (d - length f)
            = dval w' * 10 ^ d + dval f' * 10 ^ (d - length f')"
  shows "w = w' \<and> f = f'"
proof -
  from split_digits[OF v fraction_bound[OF f(1) f(4)] fraction_bound[OF f'(1) f'(4)]]
  have e: "dval w = dval w'" "dval f * 10 ^ (d - length f) = dval f' * 10 ^ (d - length f')"
    by simp_all
  have "w = w'" using whole_unique[OF w(1) w'(1) w(2) w'(2) w(3) w'(3) e(1)] .
  moreover have "f = f'"
    using fraction_unique[OF f(1) f'(1) f(2) f'(2) f(3) f'(3) f(4) f'(4) e(2)] .
  ultimately show ?thesis by simp
qed

lemma digitChar_nonzero: "0 < d \<Longrightarrow> d < 10 \<Longrightarrow> digitChar d \<noteq> CHR ''0''"
proof
  assume d: "0 < d" "d < 10" and e: "digitChar d = CHR ''0''"
  have "digitVal (digitChar d) = Some d" using d(2) by (rule digitVal_digitChar)
  then show False using e d(1) by (simp add: digitVal_zero)
qed

lemma natToString_trimmed: "length (natToString n) = 1 \<or> hd (natToString n) \<noteq> CHR ''0''"
proof (induction n rule: natToString.induct)
  case (1 n)
  show ?case
  proof (cases "n < 10")
    case True
    then show ?thesis by (simp add: natToString.simps[of n])
  next
    case False
    from natToString_hd[of "n div 10"] have ne: "natToString (n div 10) \<noteq> []" by auto
    have h: "hd (natToString n) = hd (natToString (n div 10))"
      using False ne by (simp add: natToString.simps[of n])
    show ?thesis
    proof (cases "n div 10 < 10")
      case True
      have "0 < n div 10" using False by simp
      then have "digitChar (n div 10) \<noteq> CHR ''0''" using True by (rule digitChar_nonzero)
      then show ?thesis using h True by (simp add: natToString.simps[of "n div 10"])
    next
      case F: False
      then have "1 < length (natToString (n div 10))"
        using natToString_hd[of "n div 10 div 10"] by (auto simp: natToString.simps[of "n div 10"])
      then show ?thesis using 1[OF False] h by simp
    qed
  qed
qed

text \<open>The formatter's text is in trimmed form, and it is the only trimmed text of its quantity.\<close>

lemma trimmedText_fixedToString: "trimmedText (fixedToString v d) d"
proof (cases "d = 0")
  case True
  let ?s = "natToString (nat \<bar>v\<bar>)"
  have dg: "isDigits ?s" by (rule isDigits_natToString)
  have ne: "?s \<noteq> []" using natToString_hd[of "nat \<bar>v\<bar>"] by auto
  have tr: "length ?s = 1 \<or> hd ?s \<noteq> CHR ''0''" by (rule natToString_trimmed)
  have sp: "splitPoint ?s = (?s, [])" by (rule splitPoint_digits[OF dg])
  have hd: "hd ?s \<noteq> CHR ''-''" by (rule isDigits_hd[OF dg ne])
  have p: "parse_spec (fixedToString v d) d = Some v" by (rule parse_spec_fixedToString)
  show ?thesis
  proof (cases "v < 0")
    case T: True
    have s: "fixedToString v d = CHR ''-'' # ?s" using True T by (simp add: fixedToString_def)
    have "parse_spec (CHR ''-'' # ?s) d \<noteq> Some 0" using p T unfolding s by simp
    then show ?thesis unfolding s using True dg ne tr sp
      by (simp add: trimmedText_def Let_def)
  next
    case False
    have s: "fixedToString v d = ?s" using True False by (simp add: fixedToString_def)
    show ?thesis unfolding s using True dg ne tr sp hd
      by (simp add: trimmedText_def Let_def)
  qed
next
  case False
  then have "0 < d" by simp
  from fixedToString_shape[OF this, of v] obtain w f where
    s: "fixedToString v d = (if v < 0 then ''-'' else []) @ w @ CHR ''.'' # f"
    and w: "isDigits w" "w \<noteq> []" "length w = 1 \<or> hd w \<noteq> CHR ''0''"
    and f: "isDigits f" "f \<noteq> []" "length f \<le> d" "length f = 1 \<or> last f \<noteq> CHR ''0''"
    by blast
  have sp: "splitPoint (w @ CHR ''.'' # f) = (w, f)" by (rule splitPoint_pointed[OF w(1)])
  have hd: "hd (w @ CHR ''.'' # f) \<noteq> CHR ''-''" using isDigits_hd[OF w(1,2)] w(2) by simp
  have fl: "1 \<le> length f" using f(2) by (cases f) simp_all
  have p: "parse_spec (fixedToString v d) d = Some v" by (rule parse_spec_fixedToString)
  show ?thesis
  proof (cases "v < 0")
    case True
    have s': "fixedToString v d = CHR ''-'' # w @ CHR ''.'' # f" using s True by simp
    have "parse_spec (CHR ''-'' # w @ CHR ''.'' # f) d \<noteq> Some 0" using p True unfolding s' by simp
    then show ?thesis unfolding s' using False w f fl sp
      by (simp add: trimmedText_def Let_def)
  next
    case F: False
    have s': "fixedToString v d = w @ CHR ''.'' # f" using s F by simp
    show ?thesis unfolding s' using False w f fl sp hd w(2)
      by (simp add: trimmedText_def Let_def)
  qed
qed

lemma trimmedText_round_trip:
  assumes t: "trimmedText s d" and p: "parse_spec s d = Some v"
  shows "fixedToString v d = s"
proof -
  define negative where "negative = (s \<noteq> [] \<and> hd s = CHR ''-'')"
  define body where "body = (if negative then tl s else s)"
  define whole where "whole = fst (splitPoint body)"
  define fraction where "fraction = snd (splitPoint body)"
  have all: "isDigits whole \<and> whole \<noteq> [] \<and> (length whole = 1 \<or> hd whole \<noteq> CHR ''0'')
         \<and> (if d = 0 then body = whole
             else body = whole @ ''.'' @ fraction \<and> isDigits fraction
                  \<and> 1 \<le> length fraction \<and> length fraction \<le> d
                  \<and> (length fraction = 1 \<or> last fraction \<noteq> CHR ''0''))
         \<and> (if negative then parse_spec s d \<noteq> Some 0 else True)"
    using t unfolding trimmedText_def Let_def negative_def body_def whole_def fraction_def .
  have tt: "isDigits whole" "whole \<noteq> []" "length whole = 1 \<or> hd whole \<noteq> CHR ''0''"
    using all by blast+
  have tb: "if d = 0 then body = whole
             else body = whole @ ''.'' @ fraction \<and> isDigits fraction
                  \<and> 1 \<le> length fraction \<and> length fraction \<le> d
                  \<and> (length fraction = 1 \<or> last fraction \<noteq> CHR ''0'')"
    using all by blast
  have tz: "negative \<Longrightarrow> parse_spec s d \<noteq> Some 0"
    using all by (simp split: if_splits)
  have sb: "s = (if negative then ''-'' else []) @ body"
    unfolding body_def negative_def by (cases s) auto
  obtain m where m: "parseMagnitude body d = Some m"
    and pv: "v = (if negative then - int m else int m)"
    using p unfolding parse_spec_def body_def negative_def by (auto split: if_splits)
  have m0: "negative \<Longrightarrow> m \<noteq> 0" using tz p pv by auto
  have sign: "(v < 0) = negative" using pv m0 by auto
  have av: "nat \<bar>v\<bar> = m" using pv by simp
  show ?thesis
  proof (cases "d = 0")
    case True
    then have bw: "body = whole" using tb by simp
    have "parseMagnitude whole 0 = Some (dval whole * 10 ^ 0)"
      by (rule parseMagnitude_digits[OF tt(1,2)])
    then have mv: "m = dval whole" using m bw True by simp
    let ?n = "natToString m"
    have "?n = whole"
    proof (rule whole_unique)
      show "isDigits ?n" by (rule isDigits_natToString)
      show "isDigits whole" by (rule tt(1))
      show "?n \<noteq> []" using natToString_hd[of m] by auto
      show "whole \<noteq> []" by (rule tt(2))
      show "length ?n = 1 \<or> hd ?n \<noteq> CHR ''0''" by (rule natToString_trimmed)
      show "length whole = 1 \<or> hd whole \<noteq> CHR ''0''" by (rule tt(3))
      show "dval ?n = dval whole" using mv by (simp add: dval_natToString)
    qed
    then have "fixedToString v d = (if negative then ''-'' else []) @ body"
      using True av sign bw by (simp add: fixedToString_def)
    then show ?thesis using sb by simp
  next
    case False
    then have pos: "0 < d" by simp
    from tb False have bw: "body = whole @ CHR ''.'' # fraction" and fd: "isDigits fraction"
      and fl: "1 \<le> length fraction" "length fraction \<le> d"
      and ft: "length fraction = 1 \<or> last fraction \<noteq> CHR ''0''" by simp_all
    have fn: "fraction \<noteq> []" using fl(1) by auto
    have "parseMagnitude (whole @ CHR ''.'' # fraction) d
            = Some (dval whole * 10 ^ d + dval fraction * 10 ^ (d - length fraction))"
      by (rule parseMagnitude_pointed[OF tt(1,2) fd fl(2)])
    then have mv: "m = dval whole * 10 ^ d + dval fraction * 10 ^ (d - length fraction)"
      using m bw by simp
    from fixedToString_shape[OF pos, of v] obtain w f where
      s: "fixedToString v d = (if v < 0 then ''-'' else []) @ w @ CHR ''.'' # f"
      and w: "isDigits w" "w \<noteq> []" "length w = 1 \<or> hd w \<noteq> CHR ''0''"
      and f: "isDigits f" "f \<noteq> []" "length f \<le> d" "length f = 1 \<or> last f \<noteq> CHR ''0''"
      and val: "dval w * 10 ^ d + dval f * 10 ^ (d - length f) = nat \<bar>v\<bar>" by blast
    have "dval w * 10 ^ d + dval f * 10 ^ (d - length f)
            = dval whole * 10 ^ d + dval fraction * 10 ^ (d - length fraction)"
      using val av mv by simp
    from pointed_unique[OF w(1,2,3) f(1,2,4,3) tt(1,2,3) fd fn ft fl(2) this]
    have "w = whole" "f = fraction" by simp_all
    then have "fixedToString v d = (if negative then ''-'' else []) @ body"
      using s sign bw by simp
    then show ?thesis using sb by simp
  qed
qed

text \<open>
  Claim C6, as amended. For every scale up to 80 (so for 0 to 36) and every quantity that
  fits 512 signed bits (so for every \<open>int256\<close>, far beyond 64 bits) the formatter is an
  exact, sign-preserving fixed-point conversion without rounding: reading its text back
  at the same scale gives the quantity. The text is in trimmed form: a minus sign exactly
  when the quantity is negative, the whole part without leading zeros and, at a scale
  above 0, a point and at least one and at most \<open>scale\<close> fractional digits, trailing
  zeros being removed down to one digit; at scale 0 it is the plain decimal text of the
  quantity. The round trip \<open>format(parse(s, scale), scale) = s\<close> therefore holds for the
  texts \<open>s\<close> in trimmed form and for no other text: \<open>-1500\<close> at scale 3 is \<open>"-1.5"\<close>, not
  \<open>"-1.500"\<close>.
\<close>

theorem formatUnits_exact:
  assumes "scale \<le> 80" and "- (2 ^ 511) \<le> v" and "v < 2 ^ 511"
  shows "formatUnits_v6 v scale = Inr (fixedToString v scale)
     \<and> parse_spec (fixedToString v scale) scale = Some v
     \<and> map_option (\<lambda>v'. formatUnits_v6 v' scale) (parse_spec (fixedToString v scale) scale)
          = Some (Inr (fixedToString v scale))
     \<and> trimmedText (fixedToString v scale) scale
     \<and> (\<forall>s. parse_spec s scale = Some v \<longrightarrow> (formatUnits_v6 v scale = Inr s) = trimmedText s scale)
     \<and> (0 < scale \<longrightarrow>
          (\<exists>w f. fixedToString v scale = (if v < 0 then ''-'' else []) @ w @ ''.'' @ f
                 \<and> isDigits w \<and> w \<noteq> [] \<and> isDigits f \<and> 1 \<le> length f \<and> length f \<le> scale
                 \<and> (length w = 1 \<or> hd w \<noteq> CHR ''0'') \<and> (length f = 1 \<or> last f \<noteq> CHR ''0'')
                 \<and> dval w * 10 ^ scale + dval f * 10 ^ (scale - length f) = nat \<bar>v\<bar>))
     \<and> (scale = 0 \<longrightarrow> fixedToString v scale = bigint_toString v)"
proof -
  have f: "formatUnits_v6 v scale = Inr (fixedToString v scale)"
    using assms by (simp add: formatUnits_v6_def)
  have p: "parse_spec (fixedToString v scale) scale = Some v" by (rule parse_spec_fixedToString)
  have m: "map_option (\<lambda>v'. formatUnits_v6 v' scale) (parse_spec (fixedToString v scale) scale)
          = Some (Inr (fixedToString v scale))"
    using f p by simp
  have t: "trimmedText (fixedToString v scale) scale" by (rule trimmedText_fixedToString)
  have rt: "\<forall>s. parse_spec s scale = Some v \<longrightarrow> (formatUnits_v6 v scale = Inr s) = trimmedText s scale"
  proof (intro allI impI)
    fix s
    assume ps: "parse_spec s scale = Some v"
    show "(formatUnits_v6 v scale = Inr s) = trimmedText s scale"
    proof
      assume "formatUnits_v6 v scale = Inr s"
      then have "fixedToString v scale = s" using f by simp
      then show "trimmedText s scale" using t by simp
    next
      assume "trimmedText s scale"
      then have "fixedToString v scale = s" using ps by (rule trimmedText_round_trip)
      then show "formatUnits_v6 v scale = Inr s" using f by simp
    qed
  qed
  have sh: "0 < scale \<longrightarrow>
          (\<exists>w f. fixedToString v scale = (if v < 0 then ''-'' else []) @ w @ ''.'' @ f
                 \<and> isDigits w \<and> w \<noteq> [] \<and> isDigits f \<and> 1 \<le> length f \<and> length f \<le> scale
                 \<and> (length w = 1 \<or> hd w \<noteq> CHR ''0'') \<and> (length f = 1 \<or> last f \<noteq> CHR ''0'')
                 \<and> dval w * 10 ^ scale + dval f * 10 ^ (scale - length f) = nat \<bar>v\<bar>)"
  proof
    assume "0 < scale"
    from fixedToString_shape[OF this, of v] obtain w f where
      "fixedToString v scale = (if v < 0 then ''-'' else []) @ w @ CHR ''.'' # f"
      "isDigits w" "w \<noteq> []" "isDigits f" "f \<noteq> []" "length f \<le> scale"
      "length w = 1 \<or> hd w \<noteq> CHR ''0''" "length f = 1 \<or> last f \<noteq> CHR ''0''"
      "dval w * 10 ^ scale + dval f * 10 ^ (scale - length f) = nat \<bar>v\<bar>" by blast
    moreover from \<open>f \<noteq> []\<close> have "1 \<le> length f" by (cases f) simp_all
    ultimately have "fixedToString v scale = (if v < 0 then ''-'' else []) @ w @ ''.'' @ f
                 \<and> isDigits w \<and> w \<noteq> [] \<and> isDigits f \<and> 1 \<le> length f \<and> length f \<le> scale
                 \<and> (length w = 1 \<or> hd w \<noteq> CHR ''0'') \<and> (length f = 1 \<or> last f \<noteq> CHR ''0'')
                 \<and> dval w * 10 ^ scale + dval f * 10 ^ (scale - length f) = nat \<bar>v\<bar>"
      by simp
    then show "\<exists>w f. fixedToString v scale = (if v < 0 then ''-'' else []) @ w @ ''.'' @ f
                 \<and> isDigits w \<and> w \<noteq> [] \<and> isDigits f \<and> 1 \<le> length f \<and> length f \<le> scale
                 \<and> (length w = 1 \<or> hd w \<noteq> CHR ''0'') \<and> (length f = 1 \<or> last f \<noteq> CHR ''0'')
                 \<and> dval w * 10 ^ scale + dval f * 10 ^ (scale - length f) = nat \<bar>v\<bar>"
      by blast
  qed
  have z: "scale = 0 \<longrightarrow> fixedToString v scale = bigint_toString v"
    by (auto simp: fixedToString_def bigint_toString_def Let_def)
  show ?thesis using f p m t rt sh z by blast
qed

lemma big_example:
  "fixedToString (- 123456789012345678901234567890) 18 = ''-123456789012.34567890123456789''"
  by (simp add: fixedToString_def natToString.simps digitChar_simps padWhole.simps Zeros_def Let_def)

lemma big_example_parse:
  "parse_spec ''-123456789012.345678901234567890'' 18 = Some (- 123456789012345678901234567890)"
  by (simp add: parse_spec_def parseMagnitude_def splitPoint_def digitVal_def)

lemma big_example_trimmed:
  "trimmedText ''-123456789012.34567890123456789'' 18"
  "\<not> trimmedText ''-123456789012.345678901234567890'' 18"
  by (simp_all add: trimmedText_def splitPoint_def isDigits_def digitVal_def Let_def parse_spec_def parseMagnitude_def)

theorem formatUnits_exact_witness:
  "(18::nat) \<le> 80 \<and> - (2 ^ 511) \<le> (- 123456789012345678901234567890 :: int)
   \<and> (- 123456789012345678901234567890 :: int) < 2 ^ 511
   \<and> formatUnits_v6 (- 123456789012345678901234567890) 18 = Inr ''-123456789012.34567890123456789''
   \<and> parse_spec ''-123456789012.34567890123456789'' 18 = Some (- 123456789012345678901234567890)
   \<and> trimmedText ''-123456789012.34567890123456789'' 18
   \<and> parse_spec ''-123456789012.345678901234567890'' 18 = Some (- 123456789012345678901234567890)
   \<and> formatUnits_v6 (- 123456789012345678901234567890) 18 \<noteq> Inr ''-123456789012.345678901234567890''"
proof -
  have a: "(18::nat) \<le> 80" by simp
  have b: "- (2 ^ 511) \<le> (- 123456789012345678901234567890 :: int)" by simp
  have c: "(- 123456789012345678901234567890 :: int) < 2 ^ 511" by simp
  note T = formatUnits_exact[OF a b c]
  from T have f: "formatUnits_v6 (- 123456789012345678901234567890) 18
          = Inr (fixedToString (- 123456789012345678901234567890) 18)"
    by (rule conjunct1)
  from T have p: "parse_spec (fixedToString (- 123456789012345678901234567890) 18) 18
          = Some (- 123456789012345678901234567890)"
    by blast
  from T have t: "trimmedText (fixedToString (- 123456789012345678901234567890) 18) 18"
    by blast
  from T have "\<forall>s. parse_spec s 18 = Some (- 123456789012345678901234567890) \<longrightarrow>
      (formatUnits_v6 (- 123456789012345678901234567890) 18 = Inr s) = trimmedText s 18"
    by blast
  then have n: "formatUnits_v6 (- 123456789012345678901234567890) 18
                  \<noteq> Inr ''-123456789012.345678901234567890''"
    using big_example_parse big_example_trimmed(2) by blast
  show ?thesis using a b c f p t n big_example_parse unfolding big_example by simp
qed

text \<open>
  The claim as stated fails at its own example: \<open>"-1.500"\<close> reads as \<open>-1500\<close> at scale 3,
  which is formatted as \<open>"-1.5"\<close>. The README's example agrees with the model: a position
  of \<open>1000000000000000000\<close> at 18 decimals is shown as \<open>"1.0"\<close>.
\<close>

theorem formatUnits_trims_trailing_zeros:
  "parse_spec ''-1.500'' 3 = Some (- 1500)
   \<and> formatUnits_v6 (- 1500) 3 = Inr ''-1.5''
   \<and> formatUnits_v6 (- 1500) 3 \<noteq> Inr ''-1.500''
   \<and> formatUnits_v6 1000000000000000000 18 = Inr ''1.0''"
proof -
  have t1: "formatUnits_v6 (- 1500) 3 = Inr ''-1.5''"
    by (simp add: formatUnits_v6_def fixedToString_def natToString.simps digitChar_simps padWhole.simps Zeros_def Let_def)
  have t2: "formatUnits_v6 1000000000000000000 18 = Inr ''1.0''"
    by (simp add: formatUnits_v6_def fixedToString_def natToString.simps digitChar_simps padWhole.simps Zeros_def Let_def)
  have t3: "parse_spec ''-1.500'' 3 = Some (- 1500)"
    by (simp add: parse_spec_def parseMagnitude_def splitPoint_def digitVal_def)
  show ?thesis using t1 t2 t3 by simp
qed

end
